theory Spec2Isabelle
  imports Complex_Main "HOL-Library.AList" "HOL-Library.Multiset" "HOL-Library.Log_Nat"
begin

section \<open>The process record (process.py)\<close>

text \<open>
  A \<open>Process\<close> object carries the four constructor arguments and five fields that the
  schedulers fill in. Python integers are unbounded, so every field is an \<open>int\<close>.
\<close>

record Process =
  p_id :: int
  arrival_time :: int
  burst_time :: int
  priority :: int
  remaining_burst_time :: int
  start_time :: int
  completion_time :: int
  waiting_time :: int
  turnaround_time :: int

text \<open>\<open>Process.__init__\<close>: the derived fields start at the sentinel \<open>-1\<close>.\<close>

definition Process_init :: "int \<Rightarrow> int \<Rightarrow> int \<Rightarrow> int \<Rightarrow> Process" where
  "Process_init pid arrival burst prio =
     \<lparr> p_id = pid, arrival_time = arrival, burst_time = burst, priority = prio,
       remaining_burst_time = burst, start_time = - 1, completion_time = - 1,
       waiting_time = - 1, turnaround_time = - 1 \<rparr>"

text \<open>
  \<open>Process.calculate_metrics\<close>. The warning printed in the \<open>else\<close> branch goes to standard
  output and is not part of the object's state.
\<close>

definition calculate_metrics :: "Process \<Rightarrow> Process" where
  "calculate_metrics self =
     (if completion_time self \<noteq> - 1 then
        (let self1 = self\<lparr>turnaround_time := completion_time self - arrival_time self\<rparr>;
             self2 = self1\<lparr>waiting_time := turnaround_time self1 - burst_time self1\<rparr>
         in if waiting_time self2 < 0 then self2\<lparr>waiting_time := 0\<rparr> else self2)
      else self\<lparr>waiting_time := - 1, turnaround_time := - 1\<rparr>)"

section \<open>Results of a run (scheduler.py)\<close>

text \<open>
  A Gantt chart entry is the tuple \<open>(occupant, start, end)\<close>, the occupant being the string
  \<open>"Idle"\<close> or a process id. The exceptions that the statements of scheduler.py can raise
  are \<open>ValueError\<close> (the quantum check, \<open>min\<close> of an empty sequence), \<open>IndexError\<close>
  (assignment to \<open>gantt_chart[-1]\<close> of an empty chart), and \<open>ZeroDivisionError\<close> and
  \<open>OverflowError\<close> (the divisions that give the averages); messages are not modelled.
\<close>

datatype occupant = Idle | Pid int

type_synonym gantt_entry = "occupant \<times> int \<times> int"

datatype error = ValueError | IndexError | ZeroDivisionError | OverflowError

text \<open>
  The averages are computed with \<open>/\<close> on two integers. Python returns the double nearest
  to the exact quotient (ties go to the even significand), and raises \<open>OverflowError\<close>
  when that rounding would leave the doubles, which is from \<open>2^1024 - 2^970\<close> on, half
  way between the largest double and \<open>2^1024\<close>. A double is represented by its value, a
  rational: \<open>nearest_double x\<close> rounds a positive \<open>x\<close> to 53 significant bits, or to a
  multiple of \<open>2^-1074\<close> below the normal range.
\<close>

definition pow2 :: "int \<Rightarrow> rat" where
  "pow2 k = (if 0 \<le> k then 2 ^ nat k else 1 / 2 ^ nat (- k))"

definition round_half_even :: "rat \<Rightarrow> int" where
  "round_half_even x =
     (let f = \<lfloor>x\<rfloor>; d = x - of_int f
      in if d < 1 / 2 then f else if 1 / 2 < d then f + 1 else if even f then f else f + 1)"

definition floor_log2 :: "rat \<Rightarrow> int" where
  "floor_log2 x =
     (let k = bitlen (fst (quotient_of x)) - bitlen (snd (quotient_of x))
      in if pow2 k \<le> x then k else k - 1)"

definition nearest_double :: "rat \<Rightarrow> rat" where
  "nearest_double x =
     (let u = max (floor_log2 x - 52) (- 1074)
      in of_int (round_half_even (x / pow2 u)) * pow2 u)"

definition float_limit :: rat where
  "float_limit = 2 ^ 1024 - 2 ^ 970"

definition true_div :: "int \<Rightarrow> int \<Rightarrow> error + rat" where
  "true_div a b =
     (if b = 0 then Inl ZeroDivisionError
      else (let x = of_int a / of_int b
            in if float_limit \<le> \<bar>x\<bar> then Inl OverflowError
               else if x = 0 then Inr 0
               else Inr (sgn x * nearest_double \<bar>x\<bar>)))"

type_synonym result = "gantt_entry list \<times> rat \<times> rat \<times> Process list"

text \<open>The local variables that all four algorithms keep while they simulate.\<close>

record sim_state =
  gantt_chart :: "gantt_entry list"
  current_time :: int
  total_waiting_time :: int
  total_turnaround_time :: int

record list_state = sim_state +
  completed_processes :: "Process list"

text \<open>
  What every algorithm does after its loop: it returns the empty result when nothing
  completed, otherwise it divides the two totals by \<open>n\<close> and returns the chart, the two
  averages and the completed processes sorted by id (\<open>sort\<close> and \<open>sorted\<close> are stable, as
  \<open>sort_key\<close> is).
\<close>

definition finish ::
  "gantt_entry list \<Rightarrow> int \<Rightarrow> int \<Rightarrow> nat \<Rightarrow> Process list \<Rightarrow> error + result" where
  "finish gantt total_w total_t n completed =
     (if completed = [] then Inr ([], 0, 0, [])
      else (case true_div total_w (int n) of
              Inl e \<Rightarrow> Inl e
            | Inr avg_waiting_time \<Rightarrow>
                (case true_div total_t (int n) of
                   Inl e \<Rightarrow> Inl e
                 | Inr avg_turnaround_time \<Rightarrow>
                     Inr (gantt, avg_waiting_time, avg_turnaround_time,
                          sort_key p_id completed))))"

section \<open>First-come, first-served\<close>

definition fcfs_init :: list_state where
  "fcfs_init = \<lparr> gantt_chart = [], current_time = 0, total_waiting_time = 0,
                 total_turnaround_time = 0, completed_processes = [] \<rparr>"

text \<open>The body of the \<open>while process_queue:\<close> loop of \<open>fcfs\<close>, for the popped process.\<close>

definition fcfs_step :: "Process \<Rightarrow> list_state \<Rightarrow> list_state" where
  "fcfs_step proc st =
     (let st1 = (if current_time st < arrival_time proc
                 then st\<lparr>gantt_chart := gantt_chart st @ [(Idle, current_time st, arrival_time proc)],
                         current_time := arrival_time proc\<rparr>
                 else st);
          proc1 = proc\<lparr>start_time := current_time st1\<rparr>;
          execution_start = current_time st1;
          st2 = st1\<lparr>current_time := current_time st1 + burst_time proc1\<rparr>;
          proc2 = proc1\<lparr>completion_time := current_time st2\<rparr>;
          st3 = st2\<lparr>gantt_chart := gantt_chart st2 @ [(Pid (p_id proc2), execution_start, completion_time proc2)]\<rparr>;
          proc3 = calculate_metrics proc2
      in st3\<lparr>total_waiting_time := total_waiting_time st3 + waiting_time proc3,
             total_turnaround_time := total_turnaround_time st3 + turnaround_time proc3,
             completed_processes := completed_processes st3 @ [proc3]\<rparr>)"

fun fcfs_loop :: "Process list \<Rightarrow> list_state \<Rightarrow> list_state" where
  "fcfs_loop [] st = st"
| "fcfs_loop (proc # process_queue) st = fcfs_loop process_queue (fcfs_step proc st)"

definition fcfs :: "Process list \<Rightarrow> error + result" where
  "fcfs processes =
     (let process_queue = sort_key arrival_time processes;
          st = fcfs_loop process_queue fcfs_init
      in finish (gantt_chart st) (total_waiting_time st) (total_turnaround_time st)
           (length (completed_processes st)) (completed_processes st))"

section \<open>Shortest job first and priority scheduling\<close>

text \<open>
  The bodies of \<open>sjf\<close> and \<open>priority_scheduling\<close> are the same statements; they differ in
  the key of the sort that selects the next process (\<open>burst_time\<close>, \<open>priority\<close>). The loop
  is written once, with the key as a parameter.

  Python compares \<open>Process\<close> objects by identity; \<open>remaining_processes.remove(proc)\<close>
  removes the object selected. Here \<open>remove1\<close> removes the first record equal to it:
  an equal record earlier in the list would have the same arrival time and key, and the
  stable sort would have selected that one.
\<close>

record np_state = list_state +
  remaining_processes :: "Process list"

definition np_init :: "Process list \<Rightarrow> np_state" where
  "np_init process_list =
     \<lparr> gantt_chart = [], current_time = 0, total_waiting_time = 0,
       total_turnaround_time = 0, completed_processes = [],
       remaining_processes = process_list \<rparr>"

definition ready :: "np_state \<Rightarrow> Process list" where
  "ready st = filter (\<lambda>p. arrival_time p \<le> current_time st) (remaining_processes st)"

text \<open>The block \<open>if not ready_queue:\<close>; \<open>min\<close> of an empty sequence raises \<open>ValueError\<close>.\<close>

definition np_advance :: "np_state \<Rightarrow> error + np_state" where
  "np_advance st =
     (if ready st = [] then
        (if remaining_processes st = [] then Inl ValueError
         else (let next_arrival_time = min_list (map arrival_time (remaining_processes st))
               in if current_time st < next_arrival_time
                  then Inr (st\<lparr>gantt_chart := gantt_chart st @ [(Idle, current_time st, next_arrival_time)],
                               current_time := next_arrival_time\<rparr>)
                  else Inr st))
      else Inr st)"

text \<open>The block \<open>if ready_queue:\<close>, for a ready queue that is not empty.\<close>

definition np_dispatch :: "(Process \<Rightarrow> int) \<Rightarrow> np_state \<Rightarrow> np_state" where
  "np_dispatch key st =
     (let proc = hd (sort_key key (ready st));
          st1 = st\<lparr>remaining_processes := remove1 proc (remaining_processes st)\<rparr>;
          proc1 = (if start_time proc = - 1 then proc\<lparr>start_time := current_time st1\<rparr> else proc);
          execution_start = current_time st1;
          st2 = st1\<lparr>current_time := current_time st1 + burst_time proc1\<rparr>;
          proc2 = proc1\<lparr>completion_time := current_time st2\<rparr>;
          st3 = st2\<lparr>gantt_chart := gantt_chart st2 @ [(Pid (p_id proc2), execution_start, completion_time proc2)]\<rparr>;
          proc3 = calculate_metrics proc2
      in st3\<lparr>total_waiting_time := total_waiting_time st3 + waiting_time proc3,
             total_turnaround_time := total_turnaround_time st3 + turnaround_time proc3,
             completed_processes := completed_processes st3 @ [proc3]\<rparr>)"

lemma np_advance_ready:
  assumes "np_advance st = Inr st1"
  shows "ready st1 \<noteq> []"
proof (cases "ready st = []")
  case False
  with assms show ?thesis by (simp add: np_advance_def)
next
  case True
  with assms have ne: "remaining_processes st \<noteq> []"
    by (auto simp: np_advance_def split: if_splits)
  define m where "m = min_list (map arrival_time (remaining_processes st))"
  have "m \<in> set (map arrival_time (remaining_processes st))"
    unfolding m_def using ne by (simp add: min_list_Min del: set_map)
  then obtain p where p: "p \<in> set (remaining_processes st)" "arrival_time p = m" by auto
  have rem: "remaining_processes st1 = remaining_processes st"
    using assms True ne by (auto simp: np_advance_def Let_def split: if_splits)
  have "m \<le> current_time st1"
    using assms True ne by (auto simp: np_advance_def Let_def m_def split: if_splits)
  with p rem have "p \<in> set (ready st1)" by (simp add: ready_def)
  then show ?thesis by auto
qed

lemma np_dispatch_measure:
  "length (completed_processes (np_dispatch key st)) = Suc (length (completed_processes st))"
  by (simp add: np_dispatch_def Let_def)

function np_loop :: "(Process \<Rightarrow> int) \<Rightarrow> nat \<Rightarrow> np_state \<Rightarrow> error + np_state" where
  "np_loop key n st =
     (if length (completed_processes st) < n then
        (case np_advance st of
           Inl e \<Rightarrow> Inl e
         | Inr st1 \<Rightarrow>
             if ready st1 \<noteq> [] then np_loop key n (np_dispatch key st1)
             else if remaining_processes st1 = [] then Inr st1
             else np_loop key n st1)
      else Inr st)"
  by pat_completeness auto
termination
proof (relation "measure (\<lambda>(key, n, st). n - length (completed_processes st))", goal_cases)
  case 1
  show ?case by simp
next
  case (2 key n st st1)
  have "length (completed_processes st1) = length (completed_processes st)"
    using 2(2) by (auto simp: np_advance_def Let_def split: if_splits)
  with 2(1) show ?case by (simp add: np_dispatch_measure)
next
  case (3 key n st st1)
  then show ?case using np_advance_ready by blast
qed

declare np_loop.simps [simp del]

definition nonpreemptive :: "(Process \<Rightarrow> int) \<Rightarrow> Process list \<Rightarrow> error + result" where
  "nonpreemptive key processes =
     (let process_list = sort_key arrival_time processes;
          n = length process_list
      in case np_loop key n (np_init process_list) of
           Inl e \<Rightarrow> Inl e
         | Inr st \<Rightarrow>
             finish (gantt_chart st) (total_waiting_time st) (total_turnaround_time st)
               (length (completed_processes st)) (completed_processes st))"

definition sjf :: "Process list \<Rightarrow> error + result" where
  "sjf processes = nonpreemptive burst_time processes"

definition priority_scheduling :: "Process list \<Rightarrow> error + result" where
  "priority_scheduling processes = nonpreemptive priority processes"

section \<open>Round robin\<close>

text \<open>
  The local variables of \<open>round_robin\<close>. The deque is a list (\<open>popleft\<close> takes the head,
  \<open>append\<close> adds at the end); the dictionary keeps insertion order and is an association
  list, a key that is stored again keeping its place (\<open>AList.update\<close>).

  The objects of \<open>process_list\<close> are shared with the ready queue. An object is read through
  \<open>process_list\<close> only at \<open>process_idx\<close>, before it enters the queue, so the queue holds
  the records and \<open>process_list\<close> stays as sorted.
\<close>

record rr_state = sim_state +
  process_list :: "Process list"
  completed_processes_dict :: "(int \<times> Process) list"
  ready_queue :: "Process list"
  process_idx :: nat
  last_gantt_entry :: "gantt_entry option"

definition rr_init :: "Process list \<Rightarrow> rr_state" where
  "rr_init plist =
     \<lparr> gantt_chart = [], current_time = 0, total_waiting_time = 0,
       total_turnaround_time = 0, process_list = plist, completed_processes_dict = [],
       ready_queue = [], process_idx = 0, last_gantt_entry = None \<rparr>"

text \<open>\<open>gantt_chart[-1] = entry\<close>: an empty list has no last element to assign.\<close>

definition set_last :: "'a list \<Rightarrow> 'a \<Rightarrow> error + 'a list" where
  "set_last xs x = (if xs = [] then Inl IndexError else Inr (butlast xs @ [x]))"

text \<open>The inner loops that move arrived processes to the ready queue (lines 261 and 309).\<close>

function admit :: "rr_state \<Rightarrow> rr_state" where
  "admit st =
     (if process_idx st < length (process_list st)
         \<and> arrival_time (process_list st ! process_idx st) \<le> current_time st
      then admit (st\<lparr>ready_queue := ready_queue st @
                         [(process_list st ! process_idx st)
                            \<lparr>remaining_burst_time := burst_time (process_list st ! process_idx st)\<rparr>],
                      process_idx := process_idx st + 1\<rparr>)
      else st)"
  by pat_completeness auto
termination
  by (relation "measure (\<lambda>st. length (process_list st) - process_idx st)") auto

declare admit.simps [simp del]

text \<open>
  Lines 272 to 277: the idle time is appended to the chart, or the last idle entry is
  extended; the result is the chart and \<open>last_gantt_entry\<close>.
\<close>

definition add_idle_entry ::
  "gantt_entry list \<Rightarrow> gantt_entry option \<Rightarrow> int \<Rightarrow> int
   \<Rightarrow> error + gantt_entry list \<times> gantt_entry option" where
  "add_idle_entry gantt last_entry now next_arrival_time =
     (if last_entry = None \<or> fst (the last_entry) \<noteq> Idle then
        Inr (gantt @ [(Idle, now, next_arrival_time)], Some (Idle, now, next_arrival_time))
      else if fst (the last_entry) = Idle then
        (case set_last gantt (Idle, fst (snd (the last_entry)), next_arrival_time) of
           Inl e \<Rightarrow> Inl e
         | Inr g \<Rightarrow> Inr (g, Some (last g)))
      else Inr (gantt, last_entry))"

text \<open>
  The branch \<open>if process_idx < n:\<close> of an empty ready queue, up to its \<open>continue\<close>.
\<close>

definition rr_idle :: "rr_state \<Rightarrow> error + rr_state" where
  "rr_idle st =
     (let next_arrival_time = arrival_time (process_list st ! process_idx st)
      in if current_time st < next_arrival_time then
           (case add_idle_entry (gantt_chart st) (last_gantt_entry st) (current_time st)
                   next_arrival_time of
              Inl e \<Rightarrow> Inl e
            | Inr (g, l) \<Rightarrow>
                Inr (st\<lparr>gantt_chart := g, last_gantt_entry := l,
                        current_time := next_arrival_time\<rparr>))
         else Inr st)"

text \<open>
  Lines 301 to 304: the slice is appended to the chart, or merged with the last entry when
  that entry is for the same process and ends where the slice starts.
\<close>

definition add_run_entry ::
  "gantt_entry list \<Rightarrow> gantt_entry option \<Rightarrow> int \<Rightarrow> int \<Rightarrow> int \<Rightarrow> error + gantt_entry list" where
  "add_run_entry gantt last_entry pid execution_start now =
     (if last_entry \<noteq> None \<and> fst (the last_entry) = Pid pid
         \<and> snd (snd (the last_entry)) = execution_start
      then set_last gantt (Pid pid, fst (snd (the last_entry)), now)
      else Inr (gantt @ [(Pid pid, execution_start, now)]))"

text \<open>The rest of the loop body, from \<open>proc = ready_queue.popleft()\<close> on.\<close>

definition rr_run :: "int \<Rightarrow> rr_state \<Rightarrow> error + rr_state" where
  "rr_run time_quantum st =
     (let proc = hd (ready_queue st);
          st1 = st\<lparr>ready_queue := tl (ready_queue st)\<rparr>;
          proc1 = (if start_time proc = - 1 then proc\<lparr>start_time := current_time st1\<rparr> else proc);
          execution_start = current_time st1;
          time_slice = min time_quantum (remaining_burst_time proc1);
          proc2 = proc1\<lparr>remaining_burst_time := remaining_burst_time proc1 - time_slice\<rparr>;
          st2 = st1\<lparr>current_time := current_time st1 + time_slice\<rparr>
      in case add_run_entry (gantt_chart st2) (last_gantt_entry st2) (p_id proc2)
                execution_start (current_time st2) of
           Inl e \<Rightarrow> Inl e
         | Inr g \<Rightarrow>
            (let st3 = st2\<lparr>gantt_chart := g, last_gantt_entry := Some (last g)\<rparr>;
                 st4 = admit st3
             in if remaining_burst_time proc2 = 0 then
                  (let proc3 = proc2\<lparr>completion_time := current_time st4\<rparr>;
                       proc4 = calculate_metrics proc3
                   in Inr (st4\<lparr>total_waiting_time := total_waiting_time st4 + waiting_time proc4,
                              total_turnaround_time := total_turnaround_time st4 + turnaround_time proc4,
                              completed_processes_dict :=
                                AList.update (p_id proc4) proc4 (completed_processes_dict st4)\<rparr>))
                else Inr (st4\<lparr>ready_queue := ready_queue st4 @ [proc2]\<rparr>)))"

text \<open>
  The main loop. With a quantum that is not positive a process with work left is put
  back unchanged and the loop never ends, so the loop is a partial function: \<open>None\<close> is
  a run that does not return.
\<close>

partial_function (option) rr_loop :: "int \<Rightarrow> rr_state \<Rightarrow> (error + rr_state) option" where
  "rr_loop time_quantum st0 =
     (if length (completed_processes_dict st0) < length (process_list st0) then
        (let st = admit st0
         in if ready_queue st = [] then
              (if process_idx st < length (process_list st) then
                 (case rr_idle st of
                    Inl e \<Rightarrow> Some (Inl e)
                  | Inr st' \<Rightarrow> rr_loop time_quantum st')
               else Some (Inr st))
            else (case rr_run time_quantum st of
                    Inl e \<Rightarrow> Some (Inl e)
                  | Inr st' \<Rightarrow> rr_loop time_quantum st'))
      else Some (Inr st0))"

declare rr_loop.simps [code]

definition round_robin :: "Process list \<Rightarrow> int \<Rightarrow> (error + result) option" where
  "round_robin processes time_quantum =
     (if time_quantum \<le> 0 then Some (Inl ValueError)
      else (let plist = sort_key arrival_time processes;
                n = length plist
            in case rr_loop time_quantum (rr_init plist) of
                 None \<Rightarrow> None
               | Some (Inl e) \<Rightarrow> Some (Inl e)
               | Some (Inr st) \<Rightarrow>
                   Some (finish (gantt_chart st) (total_waiting_time st)
                           (total_turnaround_time st) n
                           (map snd (completed_processes_dict st)))))"

section \<open>Round robin: one iteration in closed form, and the loop returns\<close>

text \<open>
  The inner loop \<open>admit\<close> moves to the ready queue the longest prefix of the processes
  not yet admitted that have arrived. With a positive quantum every iteration of the main
  loop decreases \<open>rr_measure\<close>, so the loop returns; \<open>rr_loop_rule\<close> and \<open>rr_loop_inv\<close>
  carry an invariant through it.
\<close>

definition reset :: "Process \<Rightarrow> Process" where
  "reset p = p\<lparr>remaining_burst_time := burst_time p\<rparr>"

definition arrivals :: "int \<Rightarrow> rr_state \<Rightarrow> Process list" where
  "arrivals t st = takeWhile (\<lambda>p. arrival_time p \<le> t) (drop (process_idx st) (process_list st))"

lemma admit_eq:
  "admit st = st\<lparr>ready_queue := ready_queue st @ map reset (arrivals (current_time st) st),
                 process_idx := process_idx st + length (arrivals (current_time st) st)\<rparr>"
proof (induction st rule: admit.induct)
  case (1 st)
  let ?i = "process_idx st" and ?ps = "process_list st"
  show ?case
  proof (cases "?i < length ?ps \<and> arrival_time (?ps ! ?i) \<le> current_time st")
    case True
    then have d: "drop ?i ?ps = ?ps ! ?i # drop (Suc ?i) ?ps"
      by (simp add: Cons_nth_drop_Suc)
    show ?thesis
      apply (subst admit.simps)
      using True 1 [OF True] by (simp add: arrivals_def d reset_def)
  next
    case False
    then have "arrivals (current_time st) st = []"
      by (cases "?i < length ?ps") (auto simp: arrivals_def Cons_nth_drop_Suc [symmetric])
    moreover have "admit st = st"
      by (subst admit.simps) (use False in auto)
    ultimately show ?thesis by simp
  qed
qed


lemma arrivals_split:
  "drop (process_idx st) (process_list st) =
     arrivals t st @ drop (process_idx st + length (arrivals t st)) (process_list st)"
proof -
  let ?d = "drop (process_idx st) (process_list st)"
  let ?P = "\<lambda>p. arrival_time p \<le> t"
  have "dropWhile ?P ?d = drop (length (takeWhile ?P ?d)) ?d"
    by (rule dropWhile_eq_drop)
  then have "?d = takeWhile ?P ?d @ drop (length (takeWhile ?P ?d)) ?d"
    by (metis takeWhile_dropWhile_id)
  then show ?thesis by (simp add: arrivals_def add.commute)
qed

lemma arrivals_next:
  assumes "process_idx st + length (arrivals t st) < length (process_list st)"
  shows "t < arrival_time (process_list st ! (process_idx st + length (arrivals t st)))"
proof -
  let ?d = "drop (process_idx st) (process_list st)"
  let ?P = "\<lambda>p. arrival_time p \<le> t"
  have "length (takeWhile ?P ?d) < length ?d" using assms by (simp add: arrivals_def)
  then have "\<not> ?P (?d ! length (takeWhile ?P ?d))" by (rule nth_length_takeWhile)
  then show ?thesis using assms by (simp add: arrivals_def)
qed

definition need :: "int \<Rightarrow> nat" where
  "need r = nat (max 1 r)"

definition rr_work :: "rr_state \<Rightarrow> nat" where
  "rr_work st = (\<Sum>p\<leftarrow>drop (process_idx st) (process_list st). Suc (need (burst_time p)))
              + (\<Sum>p\<leftarrow>ready_queue st. need (remaining_burst_time p))"

definition rr_measure :: "rr_state \<Rightarrow> nat" where
  "rr_measure st = 2 * rr_work st
     + (if process_idx st < length (process_list st)
           \<and> current_time st < arrival_time (process_list st ! process_idx st) then 1 else 0)"

lemma sum_need_reset:
  "sum_list (map ((\<lambda>p. need (remaining_burst_time p)) \<circ> reset) xs) = (\<Sum>p\<leftarrow>xs. need (burst_time p))"
  by (induction xs) (simp_all add: reset_def)

lemma sum_Suc_need:
  "(\<Sum>p\<leftarrow>xs. Suc (need (burst_time p))) = length xs + (\<Sum>p\<leftarrow>xs. need (burst_time p))"
  by (induction xs) simp_all

lemma rr_work_admitted:
  assumes "process_list s' = process_list st"
    and "process_idx s' = process_idx st + length (arrivals t st)"
    and "ready_queue s' = q @ map reset (arrivals t st) @ r"
  shows "rr_work s' + length (arrivals t st)
         = (\<Sum>p\<leftarrow>drop (process_idx st) (process_list st). Suc (need (burst_time p)))
           + (\<Sum>p\<leftarrow>q. need (remaining_burst_time p)) + (\<Sum>p\<leftarrow>r. need (remaining_burst_time p))"
proof -
  have "(\<Sum>p\<leftarrow>drop (process_idx st) (process_list st). Suc (need (burst_time p)))
        = (\<Sum>p\<leftarrow>arrivals t st. Suc (need (burst_time p)))
          + (\<Sum>p\<leftarrow>drop (process_idx s') (process_list s'). Suc (need (burst_time p)))"
    by (subst arrivals_split [of st t]) (simp add: assms)
  then show ?thesis
    by (simp add: rr_work_def assms sum_need_reset sum_Suc_need)
qed


lemma calculate_metrics_simps [simp]:
  "p_id (calculate_metrics p) = p_id p"
  "arrival_time (calculate_metrics p) = arrival_time p"
  "burst_time (calculate_metrics p) = burst_time p"
  "priority (calculate_metrics p) = priority p"
  "remaining_burst_time (calculate_metrics p) = remaining_burst_time p"
  "start_time (calculate_metrics p) = start_time p"
  "completion_time (calculate_metrics p) = completion_time p"
  by (simp_all add: calculate_metrics_def Let_def)

lemma calculate_metrics_set:
  assumes "completion_time p \<noteq> - 1"
  shows "turnaround_time (calculate_metrics p) = completion_time p - arrival_time p"
    and "waiting_time (calculate_metrics p) = max 0 (completion_time p - arrival_time p - burst_time p)"
  using assms by (simp_all add: calculate_metrics_def Let_def)

definition rr_proc :: "int \<Rightarrow> rr_state \<Rightarrow> Process" where
  "rr_proc Q st =
     (let proc = hd (ready_queue st);
          proc1 = (if start_time proc = - 1 then proc\<lparr>start_time := current_time st\<rparr> else proc)
      in proc1\<lparr>remaining_burst_time := remaining_burst_time proc1 - min Q (remaining_burst_time proc1)\<rparr>)"

definition rr_end :: "int \<Rightarrow> rr_state \<Rightarrow> int" where
  "rr_end Q st = current_time st + min Q (remaining_burst_time (hd (ready_queue st)))"

definition rr_done :: "int \<Rightarrow> rr_state \<Rightarrow> Process" where
  "rr_done Q st = calculate_metrics ((rr_proc Q st)\<lparr>completion_time := rr_end Q st\<rparr>)"

lemma rr_proc_simps [simp]:
  "p_id (rr_proc Q st) = p_id (hd (ready_queue st))"
  "arrival_time (rr_proc Q st) = arrival_time (hd (ready_queue st))"
  "burst_time (rr_proc Q st) = burst_time (hd (ready_queue st))"
  "priority (rr_proc Q st) = priority (hd (ready_queue st))"
  "remaining_burst_time (rr_proc Q st)
     = remaining_burst_time (hd (ready_queue st)) - min Q (remaining_burst_time (hd (ready_queue st)))"
  "start_time (rr_proc Q st)
     = (if start_time (hd (ready_queue st)) = - 1 then current_time st
        else start_time (hd (ready_queue st)))"
  by (simp_all add: rr_proc_def Let_def)

lemma rr_run_eq:
  "rr_run Q st =
     (case add_run_entry (gantt_chart st) (last_gantt_entry st) (p_id (hd (ready_queue st)))
             (current_time st) (rr_end Q st) of
        Inl e \<Rightarrow> Inl e
      | Inr g \<Rightarrow>
          (if remaining_burst_time (rr_proc Q st) = 0 then
             Inr (st\<lparr>gantt_chart := g, current_time := rr_end Q st,
                    total_waiting_time := total_waiting_time st + waiting_time (rr_done Q st),
                    total_turnaround_time := total_turnaround_time st + turnaround_time (rr_done Q st),
                    completed_processes_dict :=
                      AList.update (p_id (hd (ready_queue st))) (rr_done Q st)
                        (completed_processes_dict st),
                    ready_queue := tl (ready_queue st) @ map reset (arrivals (rr_end Q st) st),
                    process_idx := process_idx st + length (arrivals (rr_end Q st) st),
                    last_gantt_entry := Some (last g)\<rparr>)
           else
             Inr (st\<lparr>gantt_chart := g, current_time := rr_end Q st,
                    ready_queue := tl (ready_queue st) @ map reset (arrivals (rr_end Q st) st)
                                   @ [rr_proc Q st],
                    process_idx := process_idx st + length (arrivals (rr_end Q st) st),
                    last_gantt_entry := Some (last g)\<rparr>)))"
  unfolding rr_run_def Let_def admit_eq
  by (simp add: rr_proc_def rr_end_def rr_done_def arrivals_def Let_def split: sum.split)


lemma admit_fields [simp]:
  "process_list (admit st) = process_list st"
  "current_time (admit st) = current_time st"
  "gantt_chart (admit st) = gantt_chart st"
  "last_gantt_entry (admit st) = last_gantt_entry st"
  "completed_processes_dict (admit st) = completed_processes_dict st"
  "total_waiting_time (admit st) = total_waiting_time st"
  "total_turnaround_time (admit st) = total_turnaround_time st"
  "ready_queue (admit st) = ready_queue st @ map reset (arrivals (current_time st) st)"
  "process_idx (admit st) = process_idx st + length (arrivals (current_time st) st)"
  by (simp_all add: admit_eq)

lemma admit_empty:
  assumes "ready_queue (admit st) = []"
  shows "admit st = st"
proof -
  from assms have "arrivals (current_time st) st = []" "ready_queue st = []" by simp_all
  then show ?thesis by (simp add: admit_eq)
qed

lemma admit_next:
  assumes "process_idx (admit st) < length (process_list st)"
  shows "current_time st < arrival_time (process_list st ! process_idx (admit st))"
  using arrivals_next [of st "current_time st"] assms by simp

lemma rr_work_admit: "rr_work (admit st) + length (arrivals (current_time st) st) = rr_work st"
  using rr_work_admitted [of "admit st" st "current_time st" "ready_queue st" "[]"]
  by (simp add: rr_work_def)

lemma idle_measure:
  assumes "ready_queue (admit s) = []"
    and "process_idx (admit s) < length (process_list (admit s))"
    and "rr_idle (admit s) = Inr s'"
  shows "rr_measure s' < rr_measure s"
proof -
  have a: "admit s = s" using assms(1) by (rule admit_empty)
  have lt: "current_time s < arrival_time (process_list s ! process_idx s)"
    using admit_next [of s] assms(2) by (simp add: a)
  from assms(3) lt have s': "process_list s' = process_list s" "process_idx s' = process_idx s"
      "ready_queue s' = ready_queue s"
      "current_time s' = arrival_time (process_list s ! process_idx s)"
    by (auto simp: a rr_idle_def Let_def split: sum.splits prod.splits)
  have "rr_work s' = rr_work s" by (simp add: rr_work_def s')
  moreover have "process_idx s < length (process_list s)" using assms(2) by (simp add: a)
  ultimately show ?thesis using lt by (simp add: rr_measure_def s')
qed

lemma need_pos: "0 < need r"
  by (simp add: need_def)

lemma need_slice:
  assumes "0 < Q" and "r - min Q r \<noteq> 0"
  shows "need (r - min Q r) < need r"
  using assms by (auto simp: need_def min_def split: if_splits)

lemma run_measure:
  assumes Q: "0 < Q"
    and ne: "ready_queue (admit s) \<noteq> []"
    and run: "rr_run Q (admit s) = Inr s'"
  shows "rr_measure s' < rr_measure s"
proof -
  let ?a = "admit s"
  let ?r = "if remaining_burst_time (rr_proc Q ?a) = 0 then [] else [rr_proc Q ?a]"
  from run have s': "process_list s' = process_list ?a"
      "process_idx s' = process_idx ?a + length (arrivals (rr_end Q ?a) ?a)"
      "ready_queue s' = tl (ready_queue ?a) @ map reset (arrivals (rr_end Q ?a) ?a) @ ?r"
    by (auto simp: rr_run_eq split: sum.splits if_splits)
  have w: "rr_work s' + length (arrivals (rr_end Q ?a) ?a)
         = (\<Sum>p\<leftarrow>drop (process_idx ?a) (process_list ?a). Suc (need (burst_time p)))
           + (\<Sum>p\<leftarrow>tl (ready_queue ?a). need (remaining_burst_time p))
           + (\<Sum>p\<leftarrow>?r. need (remaining_burst_time p))"
    using s' by (rule rr_work_admitted)
  have q: "ready_queue ?a = hd (ready_queue ?a) # tl (ready_queue ?a)" using ne by simp
  have wa: "rr_work ?a
         = (\<Sum>p\<leftarrow>drop (process_idx ?a) (process_list ?a). Suc (need (burst_time p)))
           + need (remaining_burst_time (hd (ready_queue ?a)))
           + (\<Sum>p\<leftarrow>tl (ready_queue ?a). need (remaining_burst_time p))"
    unfolding rr_work_def by (subst q) simp
  have r: "(\<Sum>p\<leftarrow>?r. need (remaining_burst_time p)) < need (remaining_burst_time (hd (ready_queue ?a)))"
    using need_slice [OF Q] need_pos by (simp del: admit_fields)
  from w wa r have "rr_work s' < rr_work ?a" by linarith
  moreover have "rr_work ?a \<le> rr_work s" using rr_work_admit [of s] by linarith
  ultimately show ?thesis by (simp add: rr_measure_def)
qed

lemma rr_loop_rule:
  assumes Q: "0 < Q" and I: "I st"
    and idle: "\<And>s. I s \<Longrightarrow> length (completed_processes_dict s) < length (process_list s)
                 \<Longrightarrow> ready_queue (admit s) = []
                 \<Longrightarrow> process_idx (admit s) < length (process_list s)
                 \<Longrightarrow> \<exists>s'. rr_idle (admit s) = Inr s' \<and> I s'"
    and run: "\<And>s. I s \<Longrightarrow> length (completed_processes_dict s) < length (process_list s)
                 \<Longrightarrow> ready_queue (admit s) \<noteq> []
                 \<Longrightarrow> \<exists>s'. rr_run Q (admit s) = Inr s' \<and> I s'"
  shows "\<exists>t. rr_loop Q st = Some (Inr t) \<and> I t
           \<and> (length (completed_processes_dict t) < length (process_list t)
                \<longrightarrow> ready_queue t = [] \<and> \<not> process_idx t < length (process_list t))"
  using I
proof (induction "rr_measure st" arbitrary: st rule: less_induct)
  case less
  have pl: "process_list (admit st) = process_list st" by simp
  show ?case
  proof (cases "length (completed_processes_dict st) < length (process_list st)")
    case False
    then show ?thesis using less.prems by (subst rr_loop.simps) simp
  next
    case c: True
    show ?thesis
    proof (cases "ready_queue (admit st) = []")
      case e: True
      show ?thesis
      proof (cases "process_idx (admit st) < length (process_list st)")
        case False
        have "admit st = st" using e by (rule admit_empty)
        then show ?thesis using less.prems c e False
          by (subst rr_loop.simps) (simp add: Let_def pl del: admit_fields)
      next
        case i: True
        from idle [OF less.prems c e i] obtain s' where s': "rr_idle (admit st) = Inr s'" "I s'"
          by blast
        have "rr_measure s' < rr_measure st" using e i s'(1) by (intro idle_measure) simp_all
        from less.hyps [OF this s'(2)] show ?thesis
          using c e i s'(1) by (subst rr_loop.simps) (simp add: Let_def pl del: admit_fields)
      qed
    next
      case ne: False
      from run [OF less.prems c ne] obtain s' where s': "rr_run Q (admit st) = Inr s'" "I s'"
        by blast
      have "rr_measure s' < rr_measure st" using Q ne s'(1) by (rule run_measure)
      from less.hyps [OF this s'(2)] show ?thesis
        using c ne s'(1) by (subst rr_loop.simps) (simp add: Let_def pl del: admit_fields)
    qed
  qed
qed


definition last_ok :: "rr_state \<Rightarrow> bool" where
  "last_ok st \<longleftrightarrow>
     last_gantt_entry st = (if gantt_chart st = [] then None else Some (last (gantt_chart st)))"

definition chart_idle :: "gantt_entry list \<Rightarrow> int \<Rightarrow> int \<Rightarrow> gantt_entry list" where
  "chart_idle g now next_arrival =
     (if g \<noteq> [] \<and> fst (last g) = Idle then butlast g @ [(Idle, fst (snd (last g)), next_arrival)]
      else g @ [(Idle, now, next_arrival)])"

definition chart_run :: "gantt_entry list \<Rightarrow> int \<Rightarrow> int \<Rightarrow> int \<Rightarrow> gantt_entry list" where
  "chart_run g pid start now =
     (if g \<noteq> [] \<and> fst (last g) = Pid pid \<and> snd (snd (last g)) = start
      then butlast g @ [(Pid pid, fst (snd (last g)), now)]
      else g @ [(Pid pid, start, now)])"

definition rr_wait :: "rr_state \<Rightarrow> rr_state" where
  "rr_wait st =
     st\<lparr>gantt_chart := chart_idle (gantt_chart st) (current_time st)
                         (arrival_time (process_list st ! process_idx st)),
        last_gantt_entry := Some (last (chart_idle (gantt_chart st) (current_time st)
                         (arrival_time (process_list st ! process_idx st)))),
        current_time := arrival_time (process_list st ! process_idx st)\<rparr>"

definition rr_next :: "int \<Rightarrow> rr_state \<Rightarrow> rr_state" where
  "rr_next Q st =
     (if remaining_burst_time (rr_proc Q st) = 0 then
        st\<lparr>gantt_chart := chart_run (gantt_chart st) (p_id (hd (ready_queue st)))
                            (current_time st) (rr_end Q st),
           current_time := rr_end Q st,
           total_waiting_time := total_waiting_time st + waiting_time (rr_done Q st),
           total_turnaround_time := total_turnaround_time st + turnaround_time (rr_done Q st),
           completed_processes_dict :=
             AList.update (p_id (hd (ready_queue st))) (rr_done Q st) (completed_processes_dict st),
           ready_queue := tl (ready_queue st) @ map reset (arrivals (rr_end Q st) st),
           process_idx := process_idx st + length (arrivals (rr_end Q st) st),
           last_gantt_entry := Some (last (chart_run (gantt_chart st) (p_id (hd (ready_queue st)))
                            (current_time st) (rr_end Q st)))\<rparr>
      else
        st\<lparr>gantt_chart := chart_run (gantt_chart st) (p_id (hd (ready_queue st)))
                            (current_time st) (rr_end Q st),
           current_time := rr_end Q st,
           ready_queue := tl (ready_queue st) @ map reset (arrivals (rr_end Q st) st) @ [rr_proc Q st],
           process_idx := process_idx st + length (arrivals (rr_end Q st) st),
           last_gantt_entry := Some (last (chart_run (gantt_chart st) (p_id (hd (ready_queue st)))
                            (current_time st) (rr_end Q st)))\<rparr>)"

lemma chart_nonempty [simp]: "chart_idle g a b \<noteq> []" "chart_run g p a b \<noteq> []"
  by (simp_all add: chart_idle_def chart_run_def)

lemma add_idle_entry_ok:
  assumes "l = (if g = [] then None else Some (last g))"
  shows "add_idle_entry g l now nxt = Inr (chart_idle g now nxt, Some (last (chart_idle g now nxt)))"
  using assms by (cases "g = []") (simp_all add: add_idle_entry_def chart_idle_def set_last_def)

lemma add_run_entry_ok:
  assumes "l = (if g = [] then None else Some (last g))"
  shows "add_run_entry g l pid start now = Inr (chart_run g pid start now)"
  using assms by (cases "g = []") (simp_all add: add_run_entry_def chart_run_def set_last_def)

lemma rr_idle_ok:
  assumes "last_ok st" and "current_time st < arrival_time (process_list st ! process_idx st)"
  shows "rr_idle st = Inr (rr_wait st)"
  using assms add_idle_entry_ok [of "last_gantt_entry st" "gantt_chart st"]
  by (simp add: rr_idle_def last_ok_def rr_wait_def Let_def)

lemma rr_run_ok:
  assumes "last_ok st"
  shows "rr_run Q st = Inr (rr_next Q st)"
  using assms add_run_entry_ok [of "last_gantt_entry st" "gantt_chart st"]
  by (simp add: rr_run_eq last_ok_def rr_next_def)

lemma last_ok_steps [simp]:
  "last_ok (rr_wait st)" "last_ok (rr_next Q st)" "last_ok (admit st) = last_ok st"
  by (simp_all add: last_ok_def rr_wait_def rr_next_def)

lemma rr_loop_inv:
  assumes Q: "0 < Q" and l: "last_ok st" and I: "I st"
    and idle: "\<And>s. last_ok s \<Longrightarrow> I s
                 \<Longrightarrow> length (completed_processes_dict s) < length (process_list s)
                 \<Longrightarrow> ready_queue s = [] \<Longrightarrow> process_idx s < length (process_list s)
                 \<Longrightarrow> current_time s < arrival_time (process_list s ! process_idx s)
                 \<Longrightarrow> I (rr_wait s)"
    and run: "\<And>s. last_ok s \<Longrightarrow> I s
                 \<Longrightarrow> length (completed_processes_dict s) < length (process_list s)
                 \<Longrightarrow> ready_queue (admit s) \<noteq> []
                 \<Longrightarrow> I (rr_next Q (admit s))"
  shows "\<exists>t. rr_loop Q st = Some (Inr t) \<and> last_ok t \<and> I t
           \<and> (length (completed_processes_dict t) < length (process_list t)
                \<longrightarrow> ready_queue t = [] \<and> \<not> process_idx t < length (process_list t))"
proof -
  let ?J = "\<lambda>s. last_ok s \<and> I s"
  have "\<exists>t. rr_loop Q st = Some (Inr t) \<and> ?J t
           \<and> (length (completed_processes_dict t) < length (process_list t)
                \<longrightarrow> ready_queue t = [] \<and> \<not> process_idx t < length (process_list t))"
  proof (rule rr_loop_rule [OF Q, where I = ?J], goal_cases)
    case 1
    show ?case using l I by simp
  next
    case (2 s)
    have a: "admit s = s" using 2(3) by (rule admit_empty)
    have lt: "current_time s < arrival_time (process_list s ! process_idx s)"
      using admit_next [of s] 2(4) by (simp add: a)
    have "rr_idle s = Inr (rr_wait s)" using 2(1) lt by (simp add: rr_idle_ok)
    moreover have "I (rr_wait s)" using idle [of s] 2 lt by (simp add: a)
    ultimately show ?case by (simp add: a)
  next
    case (3 s)
    have "rr_run Q (admit s) = Inr (rr_next Q (admit s))" using 3(1) by (simp add: rr_run_ok)
    moreover have "I (rr_next Q (admit s))" using run [of s] 3 by simp
    ultimately show ?case by simp
  qed
  then show ?thesis by blast
qed

lemma rr_init_last_ok: "last_ok (rr_init plist)"
  by (simp add: last_ok_def rr_init_def)

lemma rr_loop_returns:
  assumes "0 < Q" and "last_ok st"
  shows "\<exists>t. rr_loop Q st = Some (Inr t)"
  using rr_loop_inv [OF assms, where I = "\<lambda>_. True"] by blast

section \<open>Valid inputs, metrics and timelines\<close>

text \<open>
  The callers build every process with the constructor, from an arrival time and a priority
  that are not negative and a positive burst time (\<open>add_process\<close> of gui.py), with ids
  that differ. A timeline is valid when its entries follow each other without gap from the
  start of the first, each with \<open>start < end\<close>, it starts at the earliest arrival or at 0
  and ends at the last completion, no two neighbours have the same occupant, and the
  entries that are not idle add up to the burst times.
\<close>

definition constructed :: "Process \<Rightarrow> bool" where
  "constructed p \<longleftrightarrow>
     p = Process_init (p_id p) (arrival_time p) (burst_time p) (priority p)"

definition valid_input :: "Process list \<Rightarrow> bool" where
  "valid_input processes \<longleftrightarrow>
     processes \<noteq> [] \<and> distinct (map p_id processes)
     \<and> (\<forall>p\<in>set processes. constructed p \<and> 0 \<le> arrival_time p \<and> 0 < burst_time p
                               \<and> 0 \<le> priority p)"

definition metrics_ok :: "Process \<Rightarrow> bool" where
  "metrics_ok p \<longleftrightarrow>
     turnaround_time p = completion_time p - arrival_time p
     \<and> waiting_time p = max 0 (turnaround_time p - burst_time p)"

fun contiguous :: "int \<Rightarrow> gantt_entry list \<Rightarrow> bool" where
  "contiguous t [] = True"
| "contiguous t ((occ, s, e) # g) = (s = t \<and> s < e \<and> contiguous e g)"

definition busy :: "gantt_entry list \<Rightarrow> int" where
  "busy g = (\<Sum>(occ, s, e)\<leftarrow>g. if occ = Idle then 0 else e - s)"

definition valid_timeline :: "gantt_entry list \<Rightarrow> Process list \<Rightarrow> Process list \<Rightarrow> bool" where
  "valid_timeline g processes completed \<longleftrightarrow>
     g \<noteq> [] \<and> contiguous (fst (snd (hd g))) g
     \<and> (fst (snd (hd g)) = min_list (map arrival_time processes) \<or> fst (snd (hd g)) = 0)
     \<and> snd (snd (last g)) = Max (set (map completion_time completed))
     \<and> distinct_adj (map fst g)
     \<and> busy g = sum_list (map burst_time processes)"

text \<open>
  \<open>report g cs\<close> is the outcome of a call that built the chart \<open>g\<close> and completed the
  processes \<open>cs\<close>: the result with \<open>g\<close>, the averages of the waiting and turnaround
  times of \<open>cs\<close> as doubles, and \<open>cs\<close>; or \<open>OverflowError\<close>, when an average is beyond
  the doubles.
\<close>

definition report :: "gantt_entry list \<Rightarrow> Process list \<Rightarrow> error + result" where
  "report g cs =
     (case true_div (\<Sum>p\<leftarrow>cs. waiting_time p) (int (length cs)) of
        Inl e \<Rightarrow> Inl e
      | Inr w \<Rightarrow>
          (case true_div (\<Sum>p\<leftarrow>cs. turnaround_time p) (int (length cs)) of
             Inl e \<Rightarrow> Inl e
           | Inr t \<Rightarrow> Inr (g, w, t, cs)))"

lemma true_div_cases:
  assumes "b \<noteq> 0"
  shows "true_div a b = Inl OverflowError \<or> (\<exists>r. true_div a b = Inr r)"
  using assms by (simp add: true_div_def Let_def)

lemma true_div_returns:
  assumes "b \<noteq> 0" and "\<bar>a\<bar> < 2 ^ 1023"
  shows "\<exists>r. true_div a b = Inr r"
proof -
  have "\<bar>of_int a / of_int b :: rat\<bar> = \<bar>of_int a\<bar> / \<bar>of_int b\<bar>" by simp
  also have "\<dots> \<le> \<bar>of_int a\<bar> / 1"
    using assms(1) by (intro divide_left_mono) simp_all
  also have "\<dots> < 2 ^ 1023" using assms(2) by (simp flip: of_int_abs add: of_int_less_numeral_power_cancel_iff)
  also have "(2 ^ 1023 :: rat) < float_limit" by (simp add: float_limit_def)
  finally show ?thesis using assms(1) by (simp add: true_div_def Let_def)
qed

lemma round_half_even_int [simp]: "round_half_even (of_int n) = n"
  by (simp add: round_half_even_def)

lemma pow2_nonpos: "k \<le> 0 \<Longrightarrow> pow2 k = 1 / 2 ^ nat (- k)"
  by (auto simp: pow2_def)

lemma nearest_double_int:
  assumes "0 < m" and "m < 2 ^ 53"
  shows "nearest_double (of_int m) = of_int m"
proof -
  from bitlen_bounds [OF assms(1)]
  have lo: "2 ^ nat (bitlen m - 1) \<le> m" and hi: "m < 2 ^ nat (bitlen m)" by simp_all
  have b1: "1 \<le> bitlen m" using assms(1) bitlen_eq_zero_iff [of m] bitlen_nonneg [of m] by linarith
  have "(2 :: int) ^ nat (bitlen m - 1) < 2 ^ 53" using lo assms(2) by linarith
  then have "nat (bitlen m - 1) < 53" by (simp only: power_strict_increasing_iff one_less_numeral_iff semiring_norm)
  then have b2: "bitlen m \<le> 53" by linarith
  have "pow2 (bitlen m - 1) = of_int (2 ^ nat (bitlen m - 1))" using b1 by (simp add: pow2_def)
  also have "\<dots> \<le> of_int m" using lo by (simp only: of_int_le_iff)
  finally have "pow2 (bitlen m - 1) \<le> of_int m" .
  moreover have "bitlen 1 = 1" by (simp add: bitlen_alt_def)
  ultimately have f: "floor_log2 (of_int m) = bitlen m - 1"
    by (simp add: floor_log2_def Let_def)
  define j where "j = nat (53 - bitlen m)"
  have u: "max (floor_log2 (of_int m) - 52) (- 1074) = - int j"
    unfolding f j_def using b1 b2 by simp
  have p: "pow2 (- int j) = 1 / 2 ^ j" by (simp add: pow2_def)
  have "of_int m / pow2 (- int j) = (of_int (m * 2 ^ j) :: rat)" unfolding p by simp
  then have "round_half_even (of_int m / pow2 (- int j)) = m * 2 ^ j"
    by (simp only: round_half_even_int)
  then show ?thesis unfolding nearest_double_def Let_def u p by simp
qed

lemma true_div_exact:
  assumes "b \<noteq> 0" and "b dvd a" and "\<bar>a div b\<bar> < 2 ^ 53"
  shows "true_div a b = Inr (of_int (a div b))"
proof -
  define c where "c = a div b"
  have a: "a = b * c" using assms(2) by (simp add: c_def)
  have x: "(of_int a / of_int b :: rat) = of_int c" using assms(1) by (simp add: a)
  have "\<bar>of_int c :: rat\<bar> = of_int \<bar>c\<bar>" by simp
  also have "\<dots> < of_int (2 ^ 53)" using assms(3) unfolding c_def [symmetric] by (simp only: of_int_less_iff)
  also have "\<dots> < float_limit" by (simp add: float_limit_def)
  finally have lim: "\<not> float_limit \<le> \<bar>of_int c :: rat\<bar>" by simp
  show ?thesis
  proof (cases "c = 0")
    case True
    then show ?thesis using assms(1) lim unfolding true_div_def Let_def x c_def [symmetric] by simp
  next
    case False
    then have "0 < \<bar>c\<bar>" by simp
    moreover have "\<bar>c\<bar> < 2 ^ 53" using assms(3) by (simp add: c_def)
    ultimately have "nearest_double (of_int \<bar>c\<bar>) = of_int \<bar>c\<bar>" by (rule nearest_double_int)
    then have n: "nearest_double \<bar>of_int c\<bar> = \<bar>of_int c\<bar>" by simp
    have "sgn (of_int c :: rat) * \<bar>of_int c\<bar> = of_int c" by (simp add: sgn_mult_abs)
    then show ?thesis using assms(1) lim False
      unfolding true_div_def Let_def x c_def [symmetric] n by simp
  qed
qed

lemma report_cases:
  assumes "cs \<noteq> []"
  shows "report g cs = Inl OverflowError \<or> (\<exists>w t. report g cs = Inr (g, w, t, cs))"
proof -
  have n: "int (length cs) \<noteq> 0" using assms by simp
  from true_div_cases [OF n, of "\<Sum>p\<leftarrow>cs. waiting_time p"]
       true_div_cases [OF n, of "\<Sum>p\<leftarrow>cs. turnaround_time p"]
  show ?thesis by (auto simp: report_def)
qed

lemma finish_cases:
  assumes "n \<noteq> 0 \<or> cs = []"
  shows "finish g total_w total_t n cs = Inl OverflowError
         \<or> (\<exists>r. finish g total_w total_t n cs = Inr r)"
proof (cases "cs = []")
  case True
  then show ?thesis by (simp add: finish_def)
next
  case False
  then have n: "int n \<noteq> 0" using assms by simp
  from true_div_cases [OF n, of total_w] true_div_cases [OF n, of total_t]
  show ?thesis using False by (auto simp: finish_def)
qed

lemma sum_list_sort_key:
  "(\<Sum>p\<leftarrow>sort_key k xs. f p) = (\<Sum>p\<leftarrow>xs. (f p :: int))"
proof -
  have "mset (map f (sort_key k xs)) = mset (map f xs)" by simp
  then show ?thesis by (metis sum_mset_sum_list)
qed

lemma finish_report:
  assumes "completed \<noteq> []" and "n = length completed"
    and "total_w = (\<Sum>p\<leftarrow>completed. waiting_time p)"
    and "total_t = (\<Sum>p\<leftarrow>completed. turnaround_time p)"
  shows "finish g total_w total_t n completed = report g (sort_key p_id completed)"
proof -
  have "completed \<noteq> []" by (rule assms(1))
  then show ?thesis
    unfolding finish_def report_def assms(2,3,4) sum_list_sort_key
    by (simp split: sum.split)
qed

section \<open>Charts, and the step shared by the algorithms that do not preempt\<close>

text \<open>
  \<open>serve p s st\<close> is what \<open>fcfs\<close>, \<open>sjf\<close> and \<open>priority_scheduling\<close> do with the process
  \<open>p\<close> they dispatch at time \<open>s\<close>: an idle entry when the clock is behind \<open>s\<close>, the entry of
  the process, and the process completed with its metrics. \<open>sched_inv\<close> is the invariant of
  their loops.
\<close>

definition chart_end :: "int \<Rightarrow> gantt_entry list \<Rightarrow> int" where
  "chart_end t g = (if g = [] then t else snd (snd (last g)))"

lemma chart_end_simps [simp]:
  "chart_end t [] = t" "chart_end t (g @ [(occ, s, e)]) = e"
  by (simp_all add: chart_end_def)

lemma contiguous_append:
  "contiguous t (g @ h) \<longleftrightarrow> contiguous t g \<and> contiguous (chart_end t g) h"
  by (induction g arbitrary: t) (auto simp: chart_end_def)

lemma contiguous_snoc:
  "contiguous t (g @ [(occ, s, e)]) \<longleftrightarrow> contiguous t g \<and> s = chart_end t g \<and> s < e"
  by (auto simp: contiguous_append)

lemma contiguous_extend:
  assumes "contiguous t g" and "g \<noteq> []" and "snd (snd (last g)) < e'"
  shows "contiguous t (butlast g @ [(fst (last g), fst (snd (last g)), e')])"
proof -
  obtain occ s e where l: "last g = (occ, s, e)" by (cases "last g") 
  have "g = butlast g @ [(occ, s, e)]" using assms(2) l by (metis append_butlast_last_id)
  then have "contiguous t (butlast g @ [(occ, s, e)])" using assms(1) by simp
  then show ?thesis using assms(3) l by (simp add: contiguous_snoc)
qed

lemma contiguous_hd:
  "contiguous t g \<Longrightarrow> g \<noteq> [] \<Longrightarrow> fst (snd (hd g)) = t"
  by (cases g) auto

lemma contiguous_end_le: "contiguous t g \<Longrightarrow> t \<le> chart_end t g"
proof (induction g arbitrary: t)
  case Nil
  then show ?case by simp
next
  case (Cons x g)
  obtain occ s e where x: "x = (occ, s, e)" by (cases x)
  from Cons.prems x have "s = t" "s < e" "contiguous e g" by simp_all
  with Cons.IH [of e] show ?case by (auto simp: chart_end_def x)
qed

lemma busy_simps [simp]:
  "busy [] = 0" "busy (g @ h) = busy g + busy h"
  "busy [(occ, s, e)] = (if occ = Idle then 0 else e - s)"
  by (simp_all add: busy_def)

lemma busy_extend:
  assumes "g \<noteq> []"
  shows "busy (butlast g @ [(fst (last g), fst (snd (last g)), e')])
         = busy g + (if fst (last g) = Idle then 0 else e' - snd (snd (last g)))"
proof -
  obtain occ s e where l: "last g = (occ, s, e)" by (cases "last g")
  have "busy g = busy (butlast g @ [(occ, s, e)])"
    using assms l by (metis append_butlast_last_id)
  then show ?thesis by (simp add: l)
qed

lemma map_fst_extend:
  assumes "g \<noteq> []"
  shows "map fst (butlast g @ [(fst (last g), s', e')]) = map fst g"
proof -
  have "map fst g = map fst (butlast g @ [last g])" using assms by simp
  then show ?thesis by simp
qed


definition serve :: "Process \<Rightarrow> int \<Rightarrow> 'a list_state_scheme \<Rightarrow> 'a list_state_scheme" where
  "serve p s st =
     st\<lparr>gantt_chart := gantt_chart st @ (if current_time st < s then [(Idle, current_time st, s)] else [])
                         @ [(Pid (p_id p), s, s + burst_time p)],
        current_time := s + burst_time p,
        total_waiting_time := total_waiting_time st
           + waiting_time (calculate_metrics (p\<lparr>start_time := s, completion_time := s + burst_time p\<rparr>)),
        total_turnaround_time := total_turnaround_time st
           + turnaround_time (calculate_metrics (p\<lparr>start_time := s, completion_time := s + burst_time p\<rparr>)),
        completed_processes := completed_processes st
           @ [calculate_metrics (p\<lparr>start_time := s, completion_time := s + burst_time p\<rparr>)]\<rparr>"

definition served_ok :: "Process \<Rightarrow> bool" where
  "served_ok p \<longleftrightarrow>
     metrics_ok p \<and> arrival_time p \<le> start_time p
     \<and> start_time p + burst_time p = completion_time p"

definition sched_inv :: "'a list_state_scheme \<Rightarrow> bool" where
  "sched_inv st \<longleftrightarrow>
     0 \<le> current_time st
     \<and> contiguous 0 (gantt_chart st)
     \<and> chart_end 0 (gantt_chart st) = current_time st
     \<and> distinct_adj (map fst (gantt_chart st))
     \<and> (gantt_chart st = [] \<longleftrightarrow> completed_processes st = [])
     \<and> (gantt_chart st \<noteq> [] \<longrightarrow>
          fst (last (gantt_chart st)) = Pid (p_id (last (completed_processes st)))
          \<and> completion_time (last (completed_processes st)) = current_time st)
     \<and> busy (gantt_chart st) = sum_list (map burst_time (completed_processes st))
     \<and> total_waiting_time st = (\<Sum>p\<leftarrow>completed_processes st. waiting_time p)
     \<and> total_turnaround_time st = (\<Sum>p\<leftarrow>completed_processes st. turnaround_time p)
     \<and> (\<forall>p\<in>set (completed_processes st). served_ok p \<and> completion_time p \<le> current_time st)"

lemma fcfs_step_serve: "fcfs_step p st = serve p (max (current_time st) (arrival_time p)) st"
  by (simp add: fcfs_step_def serve_def Let_def max_def)

lemma served_ok_run:
  assumes "arrival_time p \<le> s" and "0 \<le> s" and "0 < burst_time p"
  shows "served_ok (calculate_metrics (p\<lparr>start_time := s, completion_time := s + burst_time p\<rparr>))"
  using assms by (simp add: served_ok_def metrics_ok_def calculate_metrics_def Let_def)

lemma serve_inv:
  assumes inv: "sched_inv st" and s: "current_time st \<le> s" "arrival_time p \<le> s"
    and b: "0 < burst_time p" and fresh: "p_id p \<notin> p_id ` set (completed_processes st)"
  shows "sched_inv (serve p s st)"
proof -
  let ?g = "gantt_chart st" and ?c = "completed_processes st"
  let ?q = "calculate_metrics (p\<lparr>start_time := s, completion_time := s + burst_time p\<rparr>)"
  let ?idle = "if current_time st < s then [(Idle, current_time st, s)] else []"
  from inv have t0: "0 \<le> current_time st" and cont: "contiguous 0 ?g"
    and ce: "chart_end 0 ?g = current_time st" and adj: "distinct_adj (map fst ?g)"
    and emp: "?g = [] \<longleftrightarrow> ?c = []"
    and lastg: "?g \<noteq> [] \<longrightarrow> fst (last ?g) = Pid (p_id (last ?c))"
    and bsy: "busy ?g = sum_list (map burst_time ?c)"
    and tw: "total_waiting_time st = (\<Sum>p\<leftarrow>?c. waiting_time p)"
    and tt: "total_turnaround_time st = (\<Sum>p\<leftarrow>?c. turnaround_time p)"
    and cs: "\<forall>p\<in>set ?c. served_ok p \<and> completion_time p \<le> current_time st"
    by (simp_all add: sched_inv_def)
  have g': "gantt_chart (serve p s st) = (?g @ ?idle) @ [(Pid (p_id p), s, s + burst_time p)]"
    and c': "completed_processes (serve p s st) = ?c @ [?q]"
    and t': "current_time (serve p s st) = s + burst_time p"
    by (simp_all add: serve_def)
  have 5: "total_waiting_time (serve p s st) = (\<Sum>p\<leftarrow>completed_processes (serve p s st). waiting_time p)"
    and 6: "total_turnaround_time (serve p s st)
            = (\<Sum>p\<leftarrow>completed_processes (serve p s st). turnaround_time p)"
    using tw tt by (simp_all add: serve_def)
  have ci: "contiguous 0 (?g @ ?idle)" "chart_end 0 (?g @ ?idle) = s"
    using cont ce s(1) by (auto simp: contiguous_snoc)
  have 1: "contiguous 0 (gantt_chart (serve p s st))"
    unfolding g' using ci b by (simp only: contiguous_snoc) simp
  have ne: "p_id (last ?c) \<noteq> p_id p" if "?c \<noteq> []"
    using fresh that by (metis image_eqI last_in_set)
  have lg: "?g \<noteq> [] \<Longrightarrow> last (map fst ?g) \<noteq> Pid (p_id p)"
    using lastg ne emp by (simp add: last_map)
  have 2: "distinct_adj (map fst (gantt_chart (serve p s st)))"
  proof (cases "current_time st < s")
    case True
    then have "map fst (gantt_chart (serve p s st)) = (map fst ?g @ [Idle]) @ [Pid (p_id p)]"
      by (simp add: g')
    moreover have "distinct_adj (map fst ?g @ [Idle])"
      using adj lastg by (auto simp: distinct_adj_append_iff last_map)
    ultimately show ?thesis by (simp add: distinct_adj_append_iff del: append_assoc)
  next
    case False
    then have "map fst (gantt_chart (serve p s st)) = map fst ?g @ [Pid (p_id p)]"
      by (simp add: g')
    then show ?thesis using adj lg by (auto simp: distinct_adj_append_iff)
  qed
  have 3: "busy (gantt_chart (serve p s st)) = sum_list (map burst_time (completed_processes (serve p s st)))"
    unfolding g' c' using bsy by simp
  have ok: "served_ok ?q" using s t0 b by (intro served_ok_run) simp_all
  have 4: "\<forall>q\<in>set (completed_processes (serve p s st)).
             served_ok q \<and> completion_time q \<le> current_time (serve p s st)"
    unfolding c' t' using cs ok s(1) b by auto
  show ?thesis
    unfolding sched_inv_def
    using 1 2 3 4 5 6 t0 s(1) b
    by (simp add: g' c' t' del: append_assoc)
qed


lemma serve_fields [simp]:
  "completed_processes (serve p s st)
     = completed_processes st @ [calculate_metrics (p\<lparr>start_time := s, completion_time := s + burst_time p\<rparr>)]"
  "current_time (serve p s st) = s + burst_time p"
  by (simp_all add: serve_def)

lemma fcfs_loop_inv:
  assumes "sched_inv st" and "\<forall>p\<in>set xs. 0 < burst_time p" and "distinct (map p_id xs)"
    and "p_id ` set xs \<inter> p_id ` set (completed_processes st) = {}"
  shows "sched_inv (fcfs_loop xs st)
         \<and> map burst_time (completed_processes (fcfs_loop xs st))
             = map burst_time (completed_processes st) @ map burst_time xs"
  using assms
proof (induction xs arbitrary: st)
  case Nil
  then show ?case by simp
next
  case (Cons p xs)
  let ?s = "max (current_time st) (arrival_time p)"
  have 1: "sched_inv (serve p ?s st)"
    using Cons.prems by (intro serve_inv) auto
  have 2: "p_id ` set xs \<inter> p_id ` set (completed_processes (serve p ?s st)) = {}"
    using Cons.prems(3,4) by auto
  from Cons.IH [OF 1 _ _ 2] Cons.prems(2,3) show ?case
    by (simp add: fcfs_step_serve)
qed

lemma sched_inv_init: "sched_inv fcfs_init"
  by (simp add: sched_inv_def fcfs_init_def)

lemma sched_result:
  assumes inv: "sched_inv st" and ne: "completed_processes st \<noteq> []"
    and b: "sum_list (map burst_time (completed_processes st)) = sum_list (map burst_time processes)"
    and cs: "set cs = set (completed_processes st)"
  shows "valid_timeline (gantt_chart st) processes cs" and "\<forall>p\<in>set cs. served_ok p"
    and "fst (snd (hd (gantt_chart st))) = 0"
proof -
  let ?g = "gantt_chart st" and ?c = "completed_processes st"
  from inv ne have g: "?g \<noteq> []" and cont: "contiguous 0 ?g"
    and ce: "snd (snd (last ?g)) = current_time st" and adj: "distinct_adj (map fst ?g)"
    and lc: "completion_time (last ?c) = current_time st"
    and bsy: "busy ?g = sum_list (map burst_time ?c)"
    and all: "\<forall>p\<in>set ?c. served_ok p \<and> completion_time p \<le> current_time st"
    by (auto simp: sched_inv_def chart_end_def)
  have hd0: "fst (snd (hd ?g)) = 0" using cont g by (rule contiguous_hd)
  have "Max (set (map completion_time cs)) = current_time st"
  proof (rule Max_eqI)
    show "finite (set (map completion_time cs))" by simp
    show "y \<le> current_time st" if "y \<in> set (map completion_time cs)" for y
      using that all cs by auto
    have "last ?c \<in> set ?c" using ne by simp
    then show "current_time st \<in> set (map completion_time cs)"
      using lc cs by (metis image_eqI set_map)
  qed
  then show "valid_timeline ?g processes cs"
    using g cont hd0 ce adj bsy b by (simp add: valid_timeline_def)
  show "\<forall>p\<in>set cs. served_ok p" using all cs by simp
  show "fst (snd (hd ?g)) = 0" by (rule hd0)
qed

lemma fcfs_result:
  assumes "valid_input processes"
  shows "\<exists>g cs. fcfs processes = report g cs
           \<and> valid_timeline g processes cs \<and> (\<forall>p\<in>set cs. served_ok p)
           \<and> length cs = length processes \<and> fst (snd (hd g)) = 0"
proof -
  let ?xs = "sort_key arrival_time processes"
  let ?st = "fcfs_loop ?xs fcfs_init"
  have d: "distinct (map p_id ?xs)"
    using assms by (metis valid_input_def distinct_map distinct_sort set_sort)
  have "sched_inv ?st \<and> map burst_time (completed_processes ?st)
          = map burst_time (completed_processes fcfs_init) @ map burst_time ?xs"
    using assms d by (intro fcfs_loop_inv sched_inv_init) (auto simp: valid_input_def fcfs_init_def)
  then have inv: "sched_inv ?st"
    and bs: "map burst_time (completed_processes ?st) = map burst_time ?xs"
    by (simp_all add: fcfs_init_def)
  have len: "length (completed_processes ?st) = length processes"
    using arg_cong [OF bs, of length] by simp
  then have ne: "completed_processes ?st \<noteq> []" using assms by (auto simp: valid_input_def)
  have "mset (map burst_time ?xs) = mset (map burst_time processes)" by simp
  then have b: "sum_list (map burst_time (completed_processes ?st)) = sum_list (map burst_time processes)"
    unfolding bs by (metis sum_mset_sum_list)
  have "total_waiting_time ?st = (\<Sum>p\<leftarrow>completed_processes ?st. waiting_time p)"
    and "total_turnaround_time ?st = (\<Sum>p\<leftarrow>completed_processes ?st. turnaround_time p)"
    using inv by (simp_all add: sched_inv_def)
  then have "fcfs processes = report (gantt_chart ?st) (sort_key p_id (completed_processes ?st))"
    unfolding fcfs_def Let_def using ne by (intro finish_report) simp_all
  moreover have "valid_timeline (gantt_chart ?st) processes (sort_key p_id (completed_processes ?st))"
    and "\<forall>p\<in>set (sort_key p_id (completed_processes ?st)). served_ok p"
    and "fst (snd (hd (gantt_chart ?st))) = 0"
    using sched_result [OF inv ne b, of "sort_key p_id (completed_processes ?st)"] by simp_all
  ultimately show ?thesis using len by (intro exI [of _ "gantt_chart ?st"] exI [of _ "sort_key p_id (completed_processes ?st)"]) simp
qed


definition np_time :: "np_state \<Rightarrow> int" where
  "np_time st = (if ready st = [] then min_list (map arrival_time (remaining_processes st))
                 else current_time st)"

definition np_pick :: "(Process \<Rightarrow> int) \<Rightarrow> np_state \<Rightarrow> Process" where
  "np_pick key st =
     hd (sort_key key (filter (\<lambda>p. arrival_time p \<le> np_time st) (remaining_processes st)))"

lemma min_list_in: "xs \<noteq> [] \<Longrightarrow> min_list xs \<in> set (xs :: int list)"
  using Min_in [of "set xs"] by (simp add: min_list_Min)

lemma min_list_le:
  assumes "x \<in> set (xs :: int list)"
  shows "min_list xs \<le> x"
proof -
  from assms have "xs \<noteq> []" by auto
  then show ?thesis using Min_le [of "set xs" x] assms by (simp add: min_list_Min)
qed

lemma np_time_later:
  assumes "remaining_processes st \<noteq> []"
  shows "current_time st \<le> np_time st"
    and "ready st = [] \<Longrightarrow> current_time st < np_time st"
    and "filter (\<lambda>p. arrival_time p \<le> np_time st) (remaining_processes st) \<noteq> []"
proof -
  let ?m = "min_list (map arrival_time (remaining_processes st))"
  have "?m \<in> set (map arrival_time (remaining_processes st))"
    using assms by (intro min_list_in) simp
  then obtain p where p: "p \<in> set (remaining_processes st)" "arrival_time p = ?m" by auto
  show lt: "current_time st < np_time st" if "ready st = []"
  proof -
    from that p(1) have "\<not> arrival_time p \<le> current_time st"
      by (auto simp: ready_def filter_empty_conv)
    then show ?thesis using that p(2) by (simp add: np_time_def)
  qed
  then show "current_time st \<le> np_time st" by (cases "ready st = []") (auto simp: np_time_def)
  show "filter (\<lambda>p. arrival_time p \<le> np_time st) (remaining_processes st) \<noteq> []"
  proof (cases "ready st = []")
    case True
    then have "arrival_time p \<le> np_time st" using p(2) by (simp add: np_time_def)
    then show ?thesis using p(1) by (auto simp: filter_empty_conv)
  next
    case False
    then show ?thesis by (simp add: np_time_def ready_def)
  qed
qed

lemma np_advance_eq:
  assumes "remaining_processes st \<noteq> []"
  shows "np_advance st
         = Inr (if ready st = []
                then st\<lparr>gantt_chart := gantt_chart st @ [(Idle, current_time st, np_time st)],
                        current_time := np_time st\<rparr>
                else st)"
  using assms np_time_later(2) [OF assms]
  by (auto simp: np_advance_def Let_def np_time_def)

lemma np_iteration:
  assumes ne: "remaining_processes st \<noteq> []" and adv: "np_advance st = Inr st1"
    and start: "start_time (np_pick key st) = - 1"
  shows "np_dispatch key st1
         = (serve (np_pick key st) (np_time st) st)
             \<lparr>remaining_processes := remove1 (np_pick key st) (remaining_processes st)\<rparr>"
proof -
  have t1: "current_time st1 = np_time st" and r1: "remaining_processes st1 = remaining_processes st"
    using adv unfolding np_advance_eq [OF ne] by (auto simp: np_time_def)
  then have pick: "hd (sort_key key (ready st1)) = np_pick key st"
    by (simp add: ready_def np_pick_def)
  show ?thesis
  proof (cases "ready st = []")
    case True
    then have lt: "current_time st < np_time st" using ne by (rule np_time_later(2) [rotated])
    have "st1 = st\<lparr>gantt_chart := gantt_chart st @ [(Idle, current_time st, np_time st)],
                    current_time := np_time st\<rparr>"
      using adv True unfolding np_advance_eq [OF ne] by simp
    then show ?thesis
      using lt start unfolding np_dispatch_def pick Let_def by (simp add: serve_def)
  next
    case False
    have "st1 = st" using adv False unfolding np_advance_eq [OF ne] by simp
    moreover have "np_time st = current_time st" using False by (simp add: np_time_def)
    ultimately show ?thesis
      using start unfolding np_dispatch_def pick Let_def by (simp add: serve_def)
  qed
qed

lemma np_pick_in:
  assumes "remaining_processes st \<noteq> []"
  shows "np_pick key st \<in> set (remaining_processes st)"
    and "arrival_time (np_pick key st) \<le> np_time st"
proof -
  let ?r = "filter (\<lambda>p. arrival_time p \<le> np_time st) (remaining_processes st)"
  have "sort_key key ?r \<noteq> []" using np_time_later(3) [OF assms] by (metis set_sort set_empty)
  then have "hd (sort_key key ?r) \<in> set (sort_key key ?r)" by (rule hd_in_set)
  then have "np_pick key st \<in> set ?r" by (simp add: np_pick_def del: filter_sort)
  then show "np_pick key st \<in> set (remaining_processes st)"
    and "arrival_time (np_pick key st) \<le> np_time st" by simp_all
qed

lemma np_loop_rule:
  assumes I: "I st" and n: "length (completed_processes st) + length (remaining_processes st) = n"
    and start: "\<forall>p\<in>set (remaining_processes st). start_time p = - 1"
    and step: "\<And>s. I s \<Longrightarrow> remaining_processes s \<noteq> []
                 \<Longrightarrow> set (remaining_processes s) \<subseteq> set (remaining_processes st)
                 \<Longrightarrow> I ((serve (np_pick key s) (np_time s) s)
                          \<lparr>remaining_processes := remove1 (np_pick key s) (remaining_processes s)\<rparr>)"
  shows "\<exists>t. np_loop key n st = Inr t \<and> I t \<and> remaining_processes t = []
              \<and> length (completed_processes t) = n"
  using I n start step
proof (induction "length (remaining_processes st)" arbitrary: st)
  case 0
  then show ?case by (subst np_loop.simps) simp
next
  case (Suc k)
  then have ne: "remaining_processes st \<noteq> []" by auto
  let ?p = "np_pick key st"
  let ?s' = "(serve ?p (np_time st) st)\<lparr>remaining_processes := remove1 ?p (remaining_processes st)\<rparr>"
  have pin: "?p \<in> set (remaining_processes st)" using ne by (rule np_pick_in)
  obtain st1 where adv: "np_advance st = Inr st1" using np_advance_eq [OF ne] by simp
  have rdy: "ready st1 \<noteq> []" using adv by (rule np_advance_ready)
  have disp: "np_dispatch key st1 = ?s'"
    using ne adv Suc.prems(3) pin by (intro np_iteration) auto
  have pos: "0 < length (remaining_processes st)" using pin by (rule length_pos_if_in_set)
  have lt: "length (completed_processes st) < n" using Suc.prems(2) pos by linarith
  have loop: "np_loop key n st = np_loop key n ?s'"
    by (subst np_loop.simps) (simp only: lt adv rdy disp if_True sum.case not_False_eq_True)
  have k: "k = length (remaining_processes ?s')"
    using Suc.hyps(2) pin pos by (simp add: length_remove1)
  have I': "I ?s'" using Suc.prems(1) ne subset_refl by (rule Suc.prems(4))
  have "length (remaining_processes ?s') = length (remaining_processes st) - 1"
    using pin by (simp add: length_remove1)
  moreover have "length (completed_processes ?s') = Suc (length (completed_processes st))"
    by simp
  ultimately have n': "length (completed_processes ?s') + length (remaining_processes ?s') = n"
    using Suc.prems(2) pos by linarith
  have sub: "set (remaining_processes ?s') \<subseteq> set (remaining_processes st)"
    by (simp add: set_remove1_subset)
  have start': "\<forall>p\<in>set (remaining_processes ?s'). start_time p = - 1"
    using Suc.prems(3) sub by blast
  have "\<exists>t. np_loop key n ?s' = Inr t \<and> I t \<and> remaining_processes t = []
              \<and> length (completed_processes t) = n"
  proof (rule Suc.hyps(1) [OF k I' n' start'])
    fix s assume a: "I s" "remaining_processes s \<noteq> []"
      "set (remaining_processes s) \<subseteq> set (remaining_processes ?s')"
    have "set (remaining_processes s) \<subseteq> set (remaining_processes st)"
      using a(3) sub by (rule order_trans)
    with a(1,2) show "I ((serve (np_pick key s) (np_time s) s)
                   \<lparr>remaining_processes := remove1 (np_pick key s) (remaining_processes s)\<rparr>)"
      by (rule Suc.prems(4))
  qed
  then show ?case by (simp add: loop)
qed


lemma sched_inv_remaining [simp]:
  "sched_inv (st\<lparr>remaining_processes := r\<rparr>) = sched_inv st"
  by (simp add: sched_inv_def)

definition np_inv :: "Process list \<Rightarrow> np_state \<Rightarrow> bool" where
  "np_inv processes st \<longleftrightarrow>
     sched_inv st
     \<and> distinct (map p_id (remaining_processes st))
     \<and> p_id ` set (remaining_processes st) \<inter> p_id ` set (completed_processes st) = {}
     \<and> (\<forall>p\<in>set (remaining_processes st). 0 < burst_time p)
     \<and> sum_list (map burst_time (completed_processes st))
         + sum_list (map burst_time (remaining_processes st))
       = sum_list (map burst_time processes)"

lemma np_inv_step:
  assumes inv: "np_inv processes s" and ne: "remaining_processes s \<noteq> []"
  shows "np_inv processes ((serve (np_pick key s) (np_time s) s)
           \<lparr>remaining_processes := remove1 (np_pick key s) (remaining_processes s)\<rparr>)"
proof -
  let ?p = "np_pick key s" and ?t = "np_time s" and ?r = "remaining_processes s"
  from inv have si: "sched_inv s" and d: "distinct (map p_id ?r)"
    and dj: "p_id ` set ?r \<inter> p_id ` set (completed_processes s) = {}"
    and b: "\<forall>p\<in>set ?r. 0 < burst_time p"
    and sm: "sum_list (map burst_time (completed_processes s)) + sum_list (map burst_time ?r)
             = sum_list (map burst_time processes)"
    by (simp_all add: np_inv_def)
  have pin: "?p \<in> set ?r" and arr: "arrival_time ?p \<le> ?t" using ne by (rule np_pick_in)+
  have t: "current_time s \<le> ?t" using ne by (rule np_time_later)
  have fresh: "p_id ?p \<notin> p_id ` set (completed_processes s)" using pin dj by blast
  have 1: "sched_inv (serve ?p ?t s)" using si t arr b pin fresh by (intro serve_inv) auto
  have dr: "distinct ?r" using d by (simp add: distinct_map)
  have sr: "set (remove1 ?p ?r) = set ?r - {?p}" using dr by (rule set_remove1_eq)
  have 2: "distinct (map p_id (remove1 ?p ?r))"
    using d by (metis distinct_map distinct_remove1 inj_on_subset set_remove1_subset)
  have notin: "p_id ?p \<notin> p_id ` set (remove1 ?p ?r)"
  proof
    assume "p_id ?p \<in> p_id ` set (remove1 ?p ?r)"
    then obtain q where "q \<in> set (remove1 ?p ?r)" "p_id q = p_id ?p" by force
    then have q: "q \<in> set ?r" "q \<noteq> ?p" "p_id q = p_id ?p" using sr by simp_all
    have "inj_on p_id (set ?r)" using d by (simp add: distinct_map)
    then have "q = ?p" using q(1,3) pin by (auto dest: inj_onD)
    with q(2) show False by simp
  qed
  have 3: "p_id ` set (remove1 ?p ?r) \<inter> p_id ` set (completed_processes (serve ?p ?t s)) = {}"
    using dj notin sr by auto
  have 4: "\<forall>p\<in>set (remove1 ?p ?r). 0 < burst_time p" using b sr by simp
  have "sum_list (map burst_time ?r) = burst_time ?p + sum_list (map burst_time (remove1 ?p ?r))"
    using pin by (rule sum_list_map_remove1)
  then have 5: "sum_list (map burst_time (completed_processes (serve ?p ?t s)))
                  + sum_list (map burst_time (remove1 ?p ?r))
                = sum_list (map burst_time processes)"
    using sm by simp
  show ?thesis
    unfolding np_inv_def using 1 2 3 4 5 by simp
qed

lemma nonpreemptive_result:
  assumes "valid_input processes"
  shows "\<exists>g cs. nonpreemptive key processes = report g cs
           \<and> valid_timeline g processes cs \<and> (\<forall>p\<in>set cs. served_ok p)
           \<and> length cs = length processes \<and> fst (snd (hd g)) = 0"
proof -
  let ?xs = "sort_key arrival_time processes"
  let ?n = "length ?xs"
  have d: "distinct (map p_id ?xs)"
    using assms by (metis valid_input_def distinct_map distinct_sort set_sort)
  have "mset (map burst_time ?xs) = mset (map burst_time processes)" by simp
  then have sm: "sum_list (map burst_time ?xs) = sum_list (map burst_time processes)"
    by (metis sum_mset_sum_list)
  have i0: "np_inv processes (np_init ?xs)"
    using assms d sm by (simp add: np_inv_def np_init_def sched_inv_def valid_input_def)
  have n0: "length (completed_processes (np_init ?xs)) + length (remaining_processes (np_init ?xs)) = ?n"
    by (simp add: np_init_def)
  have s0: "\<forall>p\<in>set (remaining_processes (np_init ?xs)). start_time p = - 1"
  proof
    fix p assume "p \<in> set (remaining_processes (np_init ?xs))"
    then have "constructed p" using assms by (simp add: np_init_def valid_input_def)
    then have "p = Process_init (p_id p) (arrival_time p) (burst_time p) (priority p)"
      by (simp add: constructed_def)
    then have "start_time p = start_time (Process_init (p_id p) (arrival_time p) (burst_time p) (priority p))"
      by simp
    then show "start_time p = - 1" by (simp add: Process_init_def)
  qed
  from np_loop_rule [where I = "np_inv processes" and key = key, OF i0 n0 s0]
  obtain st where st: "np_loop key ?n (np_init ?xs) = Inr st" "np_inv processes st"
    "remaining_processes st = []" "length (completed_processes st) = ?n"
    using np_inv_step by blast
  have inv: "sched_inv st"
    and b: "sum_list (map burst_time (completed_processes st)) = sum_list (map burst_time processes)"
    using st(2,3) by (simp_all add: np_inv_def)
  have ne: "completed_processes st \<noteq> []" using st(4) assms by (auto simp: valid_input_def)
  have "total_waiting_time st = (\<Sum>p\<leftarrow>completed_processes st. waiting_time p)"
    and "total_turnaround_time st = (\<Sum>p\<leftarrow>completed_processes st. turnaround_time p)"
    using inv by (simp_all add: sched_inv_def)
  then have "finish (gantt_chart st) (total_waiting_time st) (total_turnaround_time st)
               (length (completed_processes st)) (completed_processes st)
             = report (gantt_chart st) (sort_key p_id (completed_processes st))"
    using ne by (intro finish_report) simp_all
  then have "nonpreemptive key processes
             = report (gantt_chart st) (sort_key p_id (completed_processes st))"
    using st(1) by (simp add: nonpreemptive_def Let_def)
  moreover have "valid_timeline (gantt_chart st) processes (sort_key p_id (completed_processes st))"
    and "\<forall>p\<in>set (sort_key p_id (completed_processes st)). served_ok p"
    and "fst (snd (hd (gantt_chart st))) = 0"
    using sched_result [OF inv ne b, of "sort_key p_id (completed_processes st)"] by simp_all
  ultimately show ?thesis using st(4)
    by (intro exI [of _ "gantt_chart st"] exI [of _ "sort_key p_id (completed_processes st)"]) simp
qed

section \<open>Round robin on a valid input\<close>

text \<open>
  The invariant of the main loop of \<open>round_robin\<close> for processes built by the constructor
  with ids that differ: what the ready queue, the dictionary, the chart and the totals
  hold after every iteration.
\<close>

lemma rr_next_fields [simp]:
  "process_list (rr_next Q st) = process_list st"
  "current_time (rr_next Q st) = rr_end Q st"
  "gantt_chart (rr_next Q st)
     = chart_run (gantt_chart st) (p_id (hd (ready_queue st))) (current_time st) (rr_end Q st)"
  "process_idx (rr_next Q st) = process_idx st + length (arrivals (rr_end Q st) st)"
  by (simp_all add: rr_next_def)

lemma rr_next_queue:
  "ready_queue (rr_next Q st)
     = tl (ready_queue st) @ map reset (arrivals (rr_end Q st) st)
       @ (if remaining_burst_time (rr_proc Q st) = 0 then [] else [rr_proc Q st])"
  by (simp add: rr_next_def)

lemma rr_next_done:
  assumes "remaining_burst_time (rr_proc Q st) = 0"
  shows "completed_processes_dict (rr_next Q st)
         = AList.update (p_id (hd (ready_queue st))) (rr_done Q st) (completed_processes_dict st)"
    and "ready_queue (rr_next Q st) = tl (ready_queue st) @ map reset (arrivals (rr_end Q st) st)"
    and "total_waiting_time (rr_next Q st) = total_waiting_time st + waiting_time (rr_done Q st)"
    and "total_turnaround_time (rr_next Q st)
         = total_turnaround_time st + turnaround_time (rr_done Q st)"
  using assms unfolding rr_next_def by (simp_all del: rr_proc_simps)

lemma rr_next_more:
  assumes "remaining_burst_time (rr_proc Q st) \<noteq> 0"
  shows "completed_processes_dict (rr_next Q st) = completed_processes_dict st"
    and "ready_queue (rr_next Q st)
         = tl (ready_queue st) @ map reset (arrivals (rr_end Q st) st) @ [rr_proc Q st]"
    and "total_waiting_time (rr_next Q st) = total_waiting_time st"
    and "total_turnaround_time (rr_next Q st) = total_turnaround_time st"
  using assms unfolding rr_next_def by (simp_all del: rr_proc_simps)

lemma rr_wait_fields [simp]:
  "process_list (rr_wait st) = process_list st"
  "current_time (rr_wait st) = arrival_time (process_list st ! process_idx st)"
  "gantt_chart (rr_wait st)
     = chart_idle (gantt_chart st) (current_time st) (arrival_time (process_list st ! process_idx st))"
  "ready_queue (rr_wait st) = ready_queue st"
  "process_idx (rr_wait st) = process_idx st"
  "completed_processes_dict (rr_wait st) = completed_processes_dict st"
  by (simp_all add: rr_wait_def)

lemma arrivals_set:
  assumes "p \<in> set (arrivals t st)"
  shows "p \<in> set (process_list st)" and "arrival_time p \<le> t"
proof -
  from assms have "p \<in> set (drop (process_idx st) (process_list st)) \<and> arrival_time p \<le> t"
    unfolding arrivals_def by (rule set_takeWhileD)
  then show "p \<in> set (process_list st)" and "arrival_time p \<le> t"
    by (auto dest: in_set_dropD)
qed

lemma reset_simps [simp]:
  "p_id (reset p) = p_id p" "arrival_time (reset p) = arrival_time p"
  "burst_time (reset p) = burst_time p" "priority (reset p) = priority p"
  "remaining_burst_time (reset p) = burst_time p" "start_time (reset p) = start_time p"
  by (simp_all add: reset_def)

lemma constructed_fields:
  assumes "constructed p"
  shows "start_time p = - 1" "remaining_burst_time p = burst_time p" "reset p = p"
proof -
  let ?q = "Process_init (p_id p) (arrival_time p) (burst_time p) (priority p)"
  from assms have e: "p = ?q" by (simp add: constructed_def)
  have "start_time ?q = - 1" "remaining_burst_time ?q = burst_time p"
    by (simp_all add: Process_init_def)
  then show s: "start_time p = - 1" and r: "remaining_burst_time p = burst_time p"
    using e by simp_all
  from r show "reset p = p" by (simp add: reset_def)
qed

text \<open>The processes of the ready queue: what they still need and when they started.\<close>

definition started_ok :: "int \<Rightarrow> Process \<Rightarrow> bool" where
  "started_ok now p \<longleftrightarrow>
     0 < remaining_burst_time p \<and> 0 \<le> arrival_time p \<and> arrival_time p \<le> now
     \<and> (start_time p = - 1 \<and> remaining_burst_time p = burst_time p
        \<or> arrival_time p \<le> start_time p
          \<and> start_time p + (burst_time p - remaining_burst_time p) \<le> now)"

definition rr_queue_ok :: "rr_state \<Rightarrow> bool" where
  "rr_queue_ok st \<longleftrightarrow>
     0 \<le> current_time st \<and> (\<forall>p\<in>set (ready_queue st). started_ok (current_time st) p)"

definition input_ok :: "Process list \<Rightarrow> bool" where
  "input_ok xs \<longleftrightarrow>
     distinct (map p_id xs)
     \<and> (\<forall>p\<in>set xs. constructed p \<and> 0 \<le> arrival_time p \<and> 0 < burst_time p)"

lemma started_ok_mono: "started_ok t p \<Longrightarrow> t \<le> t' \<Longrightarrow> started_ok t' p"
  by (auto simp: started_ok_def)

lemma started_ok_arrival:
  assumes "input_ok (process_list st)" and "p \<in> set (arrivals t st)"
  shows "started_ok t (reset p)"
proof -
  from assms have "p \<in> set (process_list st)" "arrival_time p \<le> t" by (auto dest: arrivals_set)
  then show ?thesis using assms(1) constructed_fields [of p]
    by (simp add: input_ok_def started_ok_def)
qed

lemma rr_queue_ok_admit:
  assumes "input_ok (process_list st)" and "rr_queue_ok st"
  shows "rr_queue_ok (admit st)"
  using assms started_ok_arrival [OF assms(1)] by (auto simp: rr_queue_ok_def)

lemma rr_queue_ok_wait:
  assumes "rr_queue_ok st" and "ready_queue st = []"
    and "current_time st < arrival_time (process_list st ! process_idx st)"
  shows "rr_queue_ok (rr_wait st)"
  using assms by (simp add: rr_queue_ok_def)

lemma rr_end_later:
  assumes "0 < Q" and "rr_queue_ok st" and "ready_queue st \<noteq> []"
  shows "current_time st < rr_end Q st"
proof -
  have "hd (ready_queue st) \<in> set (ready_queue st)" using assms(3) by simp
  then have "0 < remaining_burst_time (hd (ready_queue st))"
    using assms(2) by (simp add: rr_queue_ok_def started_ok_def)
  then show ?thesis using assms(1) by (simp add: rr_end_def)
qed

lemma started_ok_proc:
  assumes Q: "0 < Q" and ok: "rr_queue_ok st" and ne: "ready_queue st \<noteq> []"
  shows "arrival_time (hd (ready_queue st)) \<le> start_time (rr_proc Q st)"
    and "start_time (rr_proc Q st)
           + (burst_time (hd (ready_queue st)) - remaining_burst_time (rr_proc Q st)) \<le> rr_end Q st"
    and "0 \<le> remaining_burst_time (rr_proc Q st)"
    and "0 \<le> arrival_time (hd (ready_queue st))"
    and "arrival_time (hd (ready_queue st)) \<le> rr_end Q st"
proof -
  let ?p = "hd (ready_queue st)"
  have "?p \<in> set (ready_queue st)" using ne by simp
  then have s: "started_ok (current_time st) ?p" using ok by (simp add: rr_queue_ok_def)
  then show "arrival_time ?p \<le> start_time (rr_proc Q st)"
    and "start_time (rr_proc Q st)
           + (burst_time ?p - remaining_burst_time (rr_proc Q st)) \<le> rr_end Q st"
    and "0 \<le> remaining_burst_time (rr_proc Q st)"
    and "0 \<le> arrival_time ?p"
    and "arrival_time ?p \<le> rr_end Q st"
    using Q by (auto simp: started_ok_def rr_end_def)
qed

lemma rr_queue_ok_next:
  assumes inp: "input_ok (process_list st)" and Q: "0 < Q" and ok: "rr_queue_ok st"
    and ne: "ready_queue st \<noteq> []"
  shows "rr_queue_ok (rr_next Q st)"
proof -
  have lt: "current_time st < rr_end Q st" using Q ok ne by (rule rr_end_later)
  have 0: "0 \<le> rr_end Q st" using lt ok by (simp add: rr_queue_ok_def)
  have 1: "started_ok (rr_end Q st) p" if "p \<in> set (tl (ready_queue st))" for p
  proof -
    have "p \<in> set (ready_queue st)" using ne that by (rule list.set_sel(2))
    then have "started_ok (current_time st) p" using ok by (simp add: rr_queue_ok_def)
    moreover have "current_time st \<le> rr_end Q st" using lt by simp
    ultimately show ?thesis by (rule started_ok_mono)
  qed
  have 2: "started_ok (rr_end Q st) (reset p)" if "p \<in> set (arrivals (rr_end Q st) st)" for p
    using inp that by (rule started_ok_arrival)
  have 3: "started_ok (rr_end Q st) (rr_proc Q st)" if "remaining_burst_time (rr_proc Q st) \<noteq> 0"
    using started_ok_proc [OF Q ok ne] that by (simp add: started_ok_def)
  have "started_ok (rr_end Q st) p" if "p \<in> set (ready_queue (rr_next Q st))" for p
  proof -
    from that consider "p \<in> set (tl (ready_queue st))"
      | q where "q \<in> set (arrivals (rr_end Q st) st)" "p = reset q"
      | "remaining_burst_time (rr_proc Q st) \<noteq> 0" "p = rr_proc Q st"
      unfolding rr_next_queue by (auto split: if_splits)
    then show ?thesis using 1 2 3 by cases simp_all
  qed
  then show ?thesis using 0 by (simp add: rr_queue_ok_def)
qed


text \<open>The completed processes of the dictionary.\<close>

definition finished_ok :: "int \<Rightarrow> Process \<Rightarrow> bool" where
  "finished_ok now p \<longleftrightarrow>
     metrics_ok p \<and> arrival_time p \<le> start_time p
     \<and> start_time p + burst_time p \<le> completion_time p \<and> completion_time p \<le> now"

definition rr_dict_ok :: "rr_state \<Rightarrow> bool" where
  "rr_dict_ok st \<longleftrightarrow>
     (\<forall>e\<in>set (completed_processes_dict st). finished_ok (current_time st) (snd e))"

lemma finished_ok_mono: "finished_ok t p \<Longrightarrow> t \<le> t' \<Longrightarrow> finished_ok t' p"
  by (auto simp: finished_ok_def)

lemma rr_dict_ok_admit: "rr_dict_ok (admit st) = rr_dict_ok st"
  by (simp add: rr_dict_ok_def)

lemma rr_dict_ok_wait:
  assumes "rr_dict_ok st" and "current_time st < arrival_time (process_list st ! process_idx st)"
  shows "rr_dict_ok (rr_wait st)"
proof -
  have "finished_ok (arrival_time (process_list st ! process_idx st)) (snd e)"
    if "e \<in> set (completed_processes_dict st)" for e
  proof -
    have "finished_ok (current_time st) (snd e)" using assms(1) that by (simp add: rr_dict_ok_def)
    moreover have "current_time st \<le> arrival_time (process_list st ! process_idx st)"
      using assms(2) by simp
    ultimately show ?thesis by (rule finished_ok_mono)
  qed
  then show ?thesis by (simp add: rr_dict_ok_def)
qed

lemma rr_done_fields [simp]:
  "p_id (rr_done Q st) = p_id (hd (ready_queue st))"
  "arrival_time (rr_done Q st) = arrival_time (hd (ready_queue st))"
  "burst_time (rr_done Q st) = burst_time (hd (ready_queue st))"
  "start_time (rr_done Q st) = start_time (rr_proc Q st)"
  "completion_time (rr_done Q st) = rr_end Q st"
  "remaining_burst_time (rr_done Q st) = remaining_burst_time (rr_proc Q st)"
  by (simp_all add: rr_done_def)

lemma rr_done_metrics:
  assumes "rr_end Q st \<noteq> - 1"
  shows "metrics_ok (rr_done Q st)"
  using assms calculate_metrics_set [of "(rr_proc Q st)\<lparr>completion_time := rr_end Q st\<rparr>"]
  by (simp add: metrics_ok_def rr_done_def)

lemma finished_ok_done:
  assumes Q: "0 < Q" and ok: "rr_queue_ok st" and ne: "ready_queue st \<noteq> []"
    and z: "remaining_burst_time (rr_proc Q st) = 0"
  shows "finished_ok (rr_end Q st) (rr_done Q st)"
proof -
  have lt: "current_time st < rr_end Q st" using Q ok ne by (rule rr_end_later)
  then have "rr_end Q st \<noteq> - 1" using ok by (simp add: rr_queue_ok_def)
  then have m: "metrics_ok (rr_done Q st)" by (rule rr_done_metrics)
  show ?thesis
    using m started_ok_proc(1,2) [OF Q ok ne] z by (simp add: finished_ok_def)
qed

lemma set_update_subset:
  "set (AList.update k v al) \<subseteq> insert (k, v) (set al)"
  by (induction al) auto

lemma rr_dict_ok_next:
  assumes Q: "0 < Q" and ok: "rr_queue_ok st" and ne: "ready_queue st \<noteq> []"
    and d: "rr_dict_ok st"
  shows "rr_dict_ok (rr_next Q st)"
proof -
  have lt: "current_time st \<le> rr_end Q st" using rr_end_later [OF Q ok ne] by simp
  have old: "finished_ok (rr_end Q st) (snd e)" if "e \<in> set (completed_processes_dict st)" for e
  proof -
    have "finished_ok (current_time st) (snd e)" using d that by (simp add: rr_dict_ok_def)
    then show ?thesis using lt by (rule finished_ok_mono)
  qed
  have "finished_ok (rr_end Q st) (snd e)"
    if "e \<in> set (completed_processes_dict (rr_next Q st))" for e
  proof (cases "remaining_burst_time (rr_proc Q st) = 0")
    case True
    have eq: "completed_processes_dict (rr_next Q st)
          = AList.update (p_id (hd (ready_queue st))) (rr_done Q st) (completed_processes_dict st)"
      by (rule rr_next_done(1) [OF True])
    have "set (AList.update (p_id (hd (ready_queue st))) (rr_done Q st) (completed_processes_dict st))
          \<subseteq> insert (p_id (hd (ready_queue st)), rr_done Q st) (set (completed_processes_dict st))"
      by (rule set_update_subset)
    then have "e = (p_id (hd (ready_queue st)), rr_done Q st) \<or> e \<in> set (completed_processes_dict st)"
      using that unfolding eq by blast
    then show ?thesis
    proof
      assume "e = (p_id (hd (ready_queue st)), rr_done Q st)"
      then show ?thesis using finished_ok_done [OF Q ok ne True] by simp
    next
      assume "e \<in> set (completed_processes_dict st)"
      then show ?thesis by (rule old)
    qed
  next
    case False
    have eq: "completed_processes_dict (rr_next Q st) = completed_processes_dict st"
      by (rule rr_next_more(1) [OF False])
    show ?thesis using that unfolding eq by (rule old)
  qed
  then show ?thesis by (simp add: rr_dict_ok_def)
qed


text \<open>The ids: every process is waiting to be admitted, in the queue, or completed.\<close>

definition rr_ids :: "rr_state \<Rightarrow> int multiset" where
  "rr_ids st = mset (map fst (completed_processes_dict st)) + mset (map p_id (ready_queue st))
               + mset (map p_id (drop (process_idx st) (process_list st)))"

lemma map_p_id_reset [simp]: "map (p_id \<circ> reset) xs = map p_id xs"
  by (simp add: reset_def)

lemma rr_ids_admitted:
  assumes "process_list s' = process_list st"
    and "process_idx s' = process_idx st + length (arrivals t st)"
    and "mset (map p_id (ready_queue s')) = mset (map p_id q) + mset (map p_id (arrivals t st))"
  shows "mset (map p_id (ready_queue s')) + mset (map p_id (drop (process_idx s') (process_list s')))
         = mset (map p_id q) + mset (map p_id (drop (process_idx st) (process_list st)))"
proof -
  have "mset (map p_id (drop (process_idx st) (process_list st)))
        = mset (map p_id (arrivals t st)) + mset (map p_id (drop (process_idx s') (process_list s')))"
    by (subst arrivals_split [of st t]) (simp add: assms)
  then show ?thesis using assms(3) by simp
qed

lemma rr_ids_admit: "rr_ids (admit st) = rr_ids st"
  using rr_ids_admitted [of "admit st" st "current_time st" "ready_queue st"]
  by (simp add: rr_ids_def)

lemma rr_ids_wait: "rr_ids (rr_wait st) = rr_ids st"
  by (simp add: rr_ids_def)

lemma update_fresh:
  "k \<notin> fst ` set al \<Longrightarrow> AList.update k v al = al @ [(k, v)]"
  by (induction al) auto

lemma rr_ids_next:
  assumes ne: "ready_queue st \<noteq> []"
    and fresh: "p_id (hd (ready_queue st)) \<notin> fst ` set (completed_processes_dict st)"
  shows "rr_ids (rr_next Q st) = rr_ids st"
proof -
  let ?A = "arrivals (rr_end Q st) st"
  have q: "mset (map p_id (ready_queue st))
           = {#p_id (hd (ready_queue st))#} + mset (map p_id (tl (ready_queue st)))"
    using ne by (cases "ready_queue st") simp_all
  have pl: "process_list (rr_next Q st) = process_list st"
    and ix: "process_idx (rr_next Q st) = process_idx st + length ?A"
    by simp_all
  show ?thesis
  proof (cases "remaining_burst_time (rr_proc Q st) = 0")
    case True
    have k: "mset (map fst (completed_processes_dict (rr_next Q st)))
             = mset (map fst (completed_processes_dict st)) + {#p_id (hd (ready_queue st))#}"
      unfolding rr_next_done(1) [OF True] using fresh by (simp add: update_fresh)
    have "mset (map p_id (ready_queue (rr_next Q st)))
          = mset (map p_id (tl (ready_queue st))) + mset (map p_id ?A)"
      unfolding rr_next_done(2) [OF True] by simp
    from rr_ids_admitted [OF pl ix this] show ?thesis
      unfolding rr_ids_def k q by simp
  next
    case False
    have k: "completed_processes_dict (rr_next Q st) = completed_processes_dict st"
      by (rule rr_next_more(1) [OF False])
    have "mset (map p_id (ready_queue (rr_next Q st)))
          = mset (map p_id (ready_queue st)) + mset (map p_id ?A)"
      unfolding rr_next_more(2) [OF False] q by simp
    from rr_ids_admitted [OF pl ix this] show ?thesis
      unfolding rr_ids_def k by simp
  qed
qed

lemma rr_ids_fresh:
  assumes ids: "rr_ids st = mset (map p_id (process_list st))"
    and d: "distinct (map p_id (process_list st))"
    and ne: "ready_queue st \<noteq> []"
  shows "p_id (hd (ready_queue st)) \<notin> fst ` set (completed_processes_dict st)"
proof
  let ?k = "p_id (hd (ready_queue st))"
  assume "?k \<in> fst ` set (completed_processes_dict st)"
  then have 1: "1 \<le> count (mset (map fst (completed_processes_dict st))) ?k"
    by (simp add: count_greater_eq_one_iff del: mset_map)
  have "?k \<in> set (map p_id (ready_queue st))" using ne by simp
  then have 2: "1 \<le> count (mset (map p_id (ready_queue st))) ?k"
    by (simp add: count_greater_eq_one_iff del: mset_map set_map)
  have "count (rr_ids st) ?k \<le> 1"
    unfolding ids using d by (simp add: distinct_count_atmost_1 del: mset_map)
  then show False using 1 2 by (simp add: rr_ids_def del: mset_map)
qed


text \<open>The chart of round robin.\<close>

lemma chart_run_ok:
  assumes c: "contiguous 0 g" and e: "chart_end 0 g = now" and lt: "now < e'"
    and adj: "distinct_adj (map fst g)"
  shows "contiguous 0 (chart_run g pid now e')"
    and "chart_end 0 (chart_run g pid now e') = e'"
    and "distinct_adj (map fst (chart_run g pid now e'))"
    and "busy (chart_run g pid now e') = busy g + (e' - now)"
proof -
  let ?m = "g \<noteq> [] \<and> fst (last g) = Pid pid \<and> snd (snd (last g)) = now"
  have "contiguous 0 (chart_run g pid now e') \<and> chart_end 0 (chart_run g pid now e') = e'
        \<and> distinct_adj (map fst (chart_run g pid now e'))
        \<and> busy (chart_run g pid now e') = busy g + (e' - now)"
  proof (cases ?m)
    case True
    then have g: "g \<noteq> []" and l: "fst (last g) = Pid pid" and n: "snd (snd (last g)) = now"
      by simp_all
    have r: "chart_run g pid now e' = butlast g @ [(fst (last g), fst (snd (last g)), e')]"
      using True by (simp add: chart_run_def)
    have 1: "contiguous 0 (butlast g @ [(fst (last g), fst (snd (last g)), e')])"
      using c g lt unfolding n [symmetric] by (rule contiguous_extend)
    have 2: "map fst (butlast g @ [(fst (last g), fst (snd (last g)), e')]) = map fst g"
      using g by (rule map_fst_extend)
    have 3: "busy (butlast g @ [(fst (last g), fst (snd (last g)), e')])
             = busy g + (if fst (last g) = Idle then 0 else e' - snd (snd (last g)))"
      using g by (rule busy_extend)
    show ?thesis unfolding r using 1 2 3 adj l n by simp
  next
    case False
    then have r: "chart_run g pid now e' = g @ [(Pid pid, now, e')]"
      by (auto simp: chart_run_def)
    have ne: "fst (last g) \<noteq> Pid pid" if "g \<noteq> []"
      using False that e by (auto simp: chart_end_def)
    have "distinct_adj (map fst g @ [Pid pid])"
      using adj ne by (auto simp: distinct_adj_append_iff last_map)
    then show ?thesis unfolding r using c e lt by (simp add: contiguous_snoc)
  qed
  then show "contiguous 0 (chart_run g pid now e')"
    and "chart_end 0 (chart_run g pid now e') = e'"
    and "distinct_adj (map fst (chart_run g pid now e'))"
    and "busy (chart_run g pid now e') = busy g + (e' - now)"
    by simp_all
qed

lemma chart_idle_ok:
  assumes c: "contiguous 0 g" and e: "chart_end 0 g = now" and lt: "now < e'"
    and adj: "distinct_adj (map fst g)"
  shows "contiguous 0 (chart_idle g now e')"
    and "chart_end 0 (chart_idle g now e') = e'"
    and "distinct_adj (map fst (chart_idle g now e'))"
    and "busy (chart_idle g now e') = busy g"
proof -
  have "contiguous 0 (chart_idle g now e') \<and> chart_end 0 (chart_idle g now e') = e'
        \<and> distinct_adj (map fst (chart_idle g now e'))
        \<and> busy (chart_idle g now e') = busy g"
  proof (cases "g \<noteq> [] \<and> fst (last g) = Idle")
    case True
    then have g: "g \<noteq> []" and l: "fst (last g) = Idle" by simp_all
    have n: "snd (snd (last g)) = now" using e g by (simp add: chart_end_def)
    have r: "chart_idle g now e' = butlast g @ [(fst (last g), fst (snd (last g)), e')]"
      using True by (simp add: chart_idle_def)
    have 1: "contiguous 0 (butlast g @ [(fst (last g), fst (snd (last g)), e')])"
      using c g lt unfolding n [symmetric] by (rule contiguous_extend)
    have 2: "map fst (butlast g @ [(fst (last g), fst (snd (last g)), e')]) = map fst g"
      using g by (rule map_fst_extend)
    have 3: "busy (butlast g @ [(fst (last g), fst (snd (last g)), e')])
             = busy g + (if fst (last g) = Idle then 0 else e' - snd (snd (last g)))"
      using g by (rule busy_extend)
    show ?thesis unfolding r using 1 2 3 adj l by simp
  next
    case False
    then have r: "chart_idle g now e' = g @ [(Idle, now, e')]"
      by (auto simp: chart_idle_def)
    have ne: "fst (last g) \<noteq> Idle" if "g \<noteq> []" using False that by simp
    have "distinct_adj (map fst g @ [Idle])"
      using adj ne by (auto simp: distinct_adj_append_iff last_map)
    then show ?thesis unfolding r using c e lt by (simp add: contiguous_snoc)
  qed
  then show "contiguous 0 (chart_idle g now e')"
    and "chart_end 0 (chart_idle g now e') = e'"
    and "distinct_adj (map fst (chart_idle g now e'))"
    and "busy (chart_idle g now e') = busy g"
    by simp_all
qed

definition rr_chart_ok :: "rr_state \<Rightarrow> bool" where
  "rr_chart_ok st \<longleftrightarrow>
     contiguous 0 (gantt_chart st) \<and> chart_end 0 (gantt_chart st) = current_time st
     \<and> distinct_adj (map fst (gantt_chart st))"

definition rr_left :: "rr_state \<Rightarrow> int" where
  "rr_left st = (\<Sum>p\<leftarrow>ready_queue st. remaining_burst_time p)
                + (\<Sum>p\<leftarrow>drop (process_idx st) (process_list st). burst_time p)"

lemma rr_chart_ok_admit: "rr_chart_ok (admit st) = rr_chart_ok st"
  by (simp add: rr_chart_ok_def)

lemma rr_chart_ok_wait:
  assumes "rr_chart_ok st" and "current_time st < arrival_time (process_list st ! process_idx st)"
  shows "rr_chart_ok (rr_wait st)"
    and "busy (gantt_chart (rr_wait st)) = busy (gantt_chart st)"
  using assms chart_idle_ok [of "gantt_chart st" "current_time st"
      "arrival_time (process_list st ! process_idx st)"]
  by (simp_all add: rr_chart_ok_def)

lemma rr_chart_ok_next:
  assumes "rr_chart_ok st" and "current_time st < rr_end Q st"
  shows "rr_chart_ok (rr_next Q st)"
    and "busy (gantt_chart (rr_next Q st)) = busy (gantt_chart st) + (rr_end Q st - current_time st)"
  using assms chart_run_ok [of "gantt_chart st" "current_time st" "rr_end Q st"
      "p_id (hd (ready_queue st))"]
  by (simp_all add: rr_chart_ok_def)

lemma sum_rem_reset:
  "sum_list (map (remaining_burst_time \<circ> reset) xs) = (\<Sum>p\<leftarrow>xs. burst_time p)"
  by (induction xs) (simp_all add: reset_def)

lemma rr_left_admitted:
  assumes "process_list s' = process_list st"
    and "process_idx s' = process_idx st + length (arrivals t st)"
    and "ready_queue s' = q @ map reset (arrivals t st) @ r"
  shows "rr_left s' = (\<Sum>p\<leftarrow>q. remaining_burst_time p) + (\<Sum>p\<leftarrow>r. remaining_burst_time p)
                      + (\<Sum>p\<leftarrow>drop (process_idx st) (process_list st). burst_time p)"
proof -
  have "(\<Sum>p\<leftarrow>drop (process_idx st) (process_list st). burst_time p)
        = (\<Sum>p\<leftarrow>arrivals t st. burst_time p)
          + (\<Sum>p\<leftarrow>drop (process_idx s') (process_list s'). burst_time p)"
    by (subst arrivals_split [of st t]) (simp add: assms)
  then show ?thesis by (simp add: rr_left_def assms sum_rem_reset)
qed

lemma rr_left_admit: "rr_left (admit st) = rr_left st"
  using rr_left_admitted [of "admit st" st "current_time st" "ready_queue st" "[]"]
  by (simp add: rr_left_def)

lemma rr_left_wait: "rr_left (rr_wait st) = rr_left st"
  by (simp add: rr_left_def)

lemma rr_left_next:
  assumes ne: "ready_queue st \<noteq> []"
  shows "rr_left (rr_next Q st) + (rr_end Q st - current_time st) = rr_left st"
proof -
  let ?r = "if remaining_burst_time (rr_proc Q st) = 0 then [] else [rr_proc Q st]"
  have "rr_left (rr_next Q st)
        = (\<Sum>p\<leftarrow>tl (ready_queue st). remaining_burst_time p) + (\<Sum>p\<leftarrow>?r. remaining_burst_time p)
          + (\<Sum>p\<leftarrow>drop (process_idx st) (process_list st). burst_time p)"
    by (rule rr_left_admitted) (simp_all add: rr_next_queue)
  moreover have "(\<Sum>p\<leftarrow>?r. remaining_burst_time p) = remaining_burst_time (rr_proc Q st)"
    by (simp del: rr_proc_simps)
  moreover have "remaining_burst_time (rr_proc Q st) + (rr_end Q st - current_time st)
                 = remaining_burst_time (hd (ready_queue st))"
    by (simp add: rr_end_def)
  moreover have "(\<Sum>p\<leftarrow>ready_queue st. remaining_burst_time p)
                 = remaining_burst_time (hd (ready_queue st))
                   + (\<Sum>p\<leftarrow>tl (ready_queue st). remaining_burst_time p)"
    using ne by (cases "ready_queue st") simp_all
  ultimately show ?thesis by (simp add: rr_left_def)
qed


text \<open>The invariant of the main loop of round robin, for a valid input.\<close>

definition rr_inv :: "rr_state \<Rightarrow> bool" where
  "rr_inv st \<longleftrightarrow>
     input_ok (process_list st) \<and> rr_queue_ok st \<and> rr_dict_ok st \<and> rr_chart_ok st
     \<and> rr_ids st = mset (map p_id (process_list st))
     \<and> busy (gantt_chart st) + rr_left st = (\<Sum>p\<leftarrow>process_list st. burst_time p)
     \<and> total_waiting_time st = (\<Sum>e\<leftarrow>completed_processes_dict st. waiting_time (snd e))
     \<and> total_turnaround_time st = (\<Sum>e\<leftarrow>completed_processes_dict st. turnaround_time (snd e))
     \<and> (ready_queue st = [] \<and> \<not> process_idx st < length (process_list st)
          \<longrightarrow> completed_processes_dict st = []
              \<or> (\<exists>e\<in>set (completed_processes_dict st). completion_time (snd e) = current_time st))"

lemma rr_wait_totals [simp]:
  "total_waiting_time (rr_wait st) = total_waiting_time st"
  "total_turnaround_time (rr_wait st) = total_turnaround_time st"
  by (simp_all add: rr_wait_def)

lemma rr_inv_admit:
  assumes "rr_inv st"
  shows "rr_inv (admit st)"
proof -
  from assms have i: "input_ok (process_list st)" and q: "rr_queue_ok st"
    and l: "ready_queue st = [] \<and> \<not> process_idx st < length (process_list st)
          \<longrightarrow> completed_processes_dict st = []
              \<or> (\<exists>e\<in>set (completed_processes_dict st). completion_time (snd e) = current_time st)"
    by (simp_all add: rr_inv_def)
  have 1: "rr_queue_ok (admit st)" using i q by (rule rr_queue_ok_admit)
  have 2: "ready_queue (admit st) = [] \<and> \<not> process_idx (admit st) < length (process_list (admit st))
          \<longrightarrow> completed_processes_dict (admit st) = []
              \<or> (\<exists>e\<in>set (completed_processes_dict (admit st)).
                    completion_time (snd e) = current_time (admit st))"
  proof (cases "ready_queue (admit st) = []")
    case True
    then have "admit st = st" by (rule admit_empty)
    then show ?thesis using l by simp
  next
    case False
    then show ?thesis by blast
  qed
  have 3: "input_ok (process_list (admit st))" using i by simp
  have 4: "rr_dict_ok (admit st)" "rr_chart_ok (admit st)"
    using assms by (simp_all add: rr_inv_def rr_dict_ok_admit rr_chart_ok_admit)
  have 5: "rr_ids (admit st) = mset (map p_id (process_list (admit st)))"
    using assms by (simp add: rr_inv_def rr_ids_admit)
  have 6: "busy (gantt_chart (admit st)) + rr_left (admit st)
           = (\<Sum>p\<leftarrow>process_list (admit st). burst_time p)"
    using assms by (simp add: rr_inv_def rr_left_admit)
  have 7: "total_waiting_time (admit st)
           = (\<Sum>e\<leftarrow>completed_processes_dict (admit st). waiting_time (snd e))"
    "total_turnaround_time (admit st)
           = (\<Sum>e\<leftarrow>completed_processes_dict (admit st). turnaround_time (snd e))"
    using assms by (simp_all add: rr_inv_def)
  show ?thesis unfolding rr_inv_def using 1 2 3 4 5 6 7 by blast
qed

lemma rr_inv_wait:
  assumes inv: "rr_inv st" and e: "ready_queue st = []"
    and i: "process_idx st < length (process_list st)"
    and lt: "current_time st < arrival_time (process_list st ! process_idx st)"
  shows "rr_inv (rr_wait st)"
proof -
  have 1: "rr_queue_ok (rr_wait st)" using inv e lt by (simp add: rr_inv_def rr_queue_ok_wait)
  have 2: "rr_dict_ok (rr_wait st)" using inv lt by (simp add: rr_inv_def rr_dict_ok_wait)
  have c: "rr_chart_ok st" using inv by (simp add: rr_inv_def)
  have 3: "rr_chart_ok (rr_wait st)"
    and b: "busy (gantt_chart (rr_wait st)) = busy (gantt_chart st)"
    using c lt by (rule rr_chart_ok_wait)+
  have 4: "input_ok (process_list (rr_wait st))" using inv by (simp add: rr_inv_def)
  have 5: "rr_ids (rr_wait st) = mset (map p_id (process_list (rr_wait st)))"
    using inv by (simp add: rr_inv_def rr_ids_wait)
  have 6: "busy (gantt_chart (rr_wait st)) + rr_left (rr_wait st)
           = (\<Sum>p\<leftarrow>process_list (rr_wait st). burst_time p)"
    unfolding b rr_left_wait using inv by (simp add: rr_inv_def)
  have 7: "total_waiting_time (rr_wait st)
           = (\<Sum>e\<leftarrow>completed_processes_dict (rr_wait st). waiting_time (snd e))"
    "total_turnaround_time (rr_wait st)
           = (\<Sum>e\<leftarrow>completed_processes_dict (rr_wait st). turnaround_time (snd e))"
    using inv by (simp_all add: rr_inv_def)
  have 8: "process_idx (rr_wait st) < length (process_list (rr_wait st))" using i by simp
  show ?thesis unfolding rr_inv_def using 1 2 3 4 5 6 7 8 by blast
qed

lemma rr_inv_next:
  assumes Q: "0 < Q" and inv: "rr_inv st" and ne: "ready_queue st \<noteq> []"
  shows "rr_inv (rr_next Q st)"
proof -
  let ?k = "p_id (hd (ready_queue st))"
  from inv have i: "input_ok (process_list st)" and q: "rr_queue_ok st" and d: "rr_dict_ok st"
    and c: "rr_chart_ok st" and ids: "rr_ids st = mset (map p_id (process_list st))"
    and w: "busy (gantt_chart st) + rr_left st = (\<Sum>p\<leftarrow>process_list st. burst_time p)"
    and tw: "total_waiting_time st = (\<Sum>e\<leftarrow>completed_processes_dict st. waiting_time (snd e))"
    and tt: "total_turnaround_time st
             = (\<Sum>e\<leftarrow>completed_processes_dict st. turnaround_time (snd e))"
    by (simp_all add: rr_inv_def)
  have lt: "current_time st < rr_end Q st" using Q q ne by (rule rr_end_later)
  have dist: "distinct (map p_id (process_list st))" using i by (simp add: input_ok_def)
  have fresh: "?k \<notin> fst ` set (completed_processes_dict st)"
    using ids dist ne by (rule rr_ids_fresh)
  have 1: "rr_queue_ok (rr_next Q st)" using i Q q ne by (rule rr_queue_ok_next)
  have 2: "rr_dict_ok (rr_next Q st)" using Q q ne d by (rule rr_dict_ok_next)
  have 3: "rr_chart_ok (rr_next Q st)"
    and b: "busy (gantt_chart (rr_next Q st))
            = busy (gantt_chart st) + (rr_end Q st - current_time st)"
    using c lt by (rule rr_chart_ok_next)+
  have 4: "input_ok (process_list (rr_next Q st))" using i by simp
  have 5: "rr_ids (rr_next Q st) = mset (map p_id (process_list (rr_next Q st)))"
    using ids rr_ids_next [OF ne fresh, of Q] by simp
  have 6: "busy (gantt_chart (rr_next Q st)) + rr_left (rr_next Q st)
           = (\<Sum>p\<leftarrow>process_list (rr_next Q st). burst_time p)"
    using w b rr_left_next [OF ne, of Q] by simp
  have 7: "total_waiting_time (rr_next Q st)
             = (\<Sum>e\<leftarrow>completed_processes_dict (rr_next Q st). waiting_time (snd e))
           \<and> total_turnaround_time (rr_next Q st)
             = (\<Sum>e\<leftarrow>completed_processes_dict (rr_next Q st). turnaround_time (snd e))
           \<and> (ready_queue (rr_next Q st) = []
                \<longrightarrow> (\<exists>e\<in>set (completed_processes_dict (rr_next Q st)).
                       completion_time (snd e) = current_time (rr_next Q st)))"
  proof (cases "remaining_burst_time (rr_proc Q st) = 0")
    case True
    have u: "completed_processes_dict (rr_next Q st)
             = completed_processes_dict st @ [(?k, rr_done Q st)]"
      unfolding rr_next_done(1) [OF True] using fresh by (rule update_fresh)
    show ?thesis unfolding u rr_next_done(3,4) [OF True] using tw tt by simp
  next
    case False
    have "ready_queue (rr_next Q st) \<noteq> []" unfolding rr_next_more(2) [OF False] by simp
    then show ?thesis unfolding rr_next_more [OF False] using tw tt by simp
  qed
  show ?thesis unfolding rr_inv_def using 1 2 3 4 5 6 7 by blast
qed

lemma rr_inv_init:
  assumes "input_ok plist"
  shows "rr_inv (rr_init plist)"
  using assms
  by (simp add: rr_inv_def rr_init_def rr_queue_ok_def rr_dict_ok_def rr_chart_ok_def
      rr_ids_def rr_left_def)


definition ran_ok :: "Process \<Rightarrow> bool" where
  "ran_ok p \<longleftrightarrow>
     metrics_ok p \<and> arrival_time p \<le> start_time p
     \<and> start_time p + burst_time p \<le> completion_time p"

lemma sum_list_pos_int:
  assumes "xs \<noteq> []" and "\<forall>x\<in>set xs. 0 < (f x :: int)"
  shows "0 < sum_list (map f xs)"
  using assms
proof (induction xs)
  case Nil
  then show ?case by simp
next
  case (Cons x xs)
  show ?case
  proof (cases "xs = []")
    case True
    then show ?thesis using Cons.prems by simp
  next
    case False
    then have "0 < sum_list (map f xs)" using Cons by simp
    moreover have "0 < f x" using Cons.prems by simp
    ultimately show ?thesis by simp
  qed
qed

lemma valid_input_sorted:
  assumes "valid_input processes"
  shows "input_ok (sort_key arrival_time processes)"
proof -
  have "distinct (map p_id (sort_key arrival_time processes))"
    using assms by (metis valid_input_def distinct_map distinct_sort set_sort)
  then show ?thesis using assms by (simp add: input_ok_def valid_input_def)
qed

lemma rr_final:
  assumes v: "valid_input processes" and Q: "0 < Q"
  shows "\<exists>t. rr_loop Q (rr_init (sort_key arrival_time processes)) = Some (Inr t)
           \<and> rr_inv t \<and> process_list t = sort_key arrival_time processes
           \<and> length (completed_processes_dict t) = length processes
           \<and> ready_queue t = [] \<and> \<not> process_idx t < length (process_list t)"
proof -
  let ?xs = "sort_key arrival_time processes"
  let ?I = "\<lambda>s. rr_inv s \<and> process_list s = ?xs"
  have i0: "?I (rr_init ?xs)"
    using valid_input_sorted [OF v] by (simp add: rr_inv_init) (simp add: rr_init_def)
  have "\<exists>t. rr_loop Q (rr_init ?xs) = Some (Inr t) \<and> last_ok t \<and> ?I t
           \<and> (length (completed_processes_dict t) < length (process_list t)
                \<longrightarrow> ready_queue t = [] \<and> \<not> process_idx t < length (process_list t))"
  proof (rule rr_loop_inv [OF Q rr_init_last_ok, where I = ?I], goal_cases)
    case 1
    show ?case by (rule i0)
  next
    case (2 s)
    then have "rr_inv (rr_wait s)" by (intro rr_inv_wait) simp_all
    then show ?case using 2(2) by simp
  next
    case (3 s)
    have "rr_inv (admit s)" using 3(2) by (intro rr_inv_admit) simp
    then have "rr_inv (rr_next Q (admit s))" using Q 3(4) by (intro rr_inv_next)
    then show ?case using 3(2) by simp
  qed
  then obtain t where t: "rr_loop Q (rr_init ?xs) = Some (Inr t)" and inv: "rr_inv t"
    and pl: "process_list t = ?xs"
    and fin: "length (completed_processes_dict t) < length (process_list t)
                \<longrightarrow> ready_queue t = [] \<and> \<not> process_idx t < length (process_list t)"
    by blast
  have ids: "rr_ids t = mset (map p_id (process_list t))" using inv by (simp add: rr_inv_def)
  have "size (rr_ids t) = length (process_list t)" unfolding ids by simp
  then have sz: "length (completed_processes_dict t) + length (ready_queue t)
                 + (length (process_list t) - process_idx t) = length (process_list t)"
    by (simp add: rr_ids_def)
  have n: "length (completed_processes_dict t) = length (process_list t)"
  proof (rule ccontr)
    assume a: "length (completed_processes_dict t) \<noteq> length (process_list t)"
    with sz have "length (completed_processes_dict t) < length (process_list t)" by linarith
    with fin have "ready_queue t = []" "\<not> process_idx t < length (process_list t)" by simp_all
    with sz a show False by simp
  qed
  with sz have "ready_queue t = []" "\<not> process_idx t < length (process_list t)" by simp_all
  with t inv pl n show ?thesis by simp
qed

lemma rr_result:
  assumes v: "valid_input processes" and Q: "0 < Q"
  shows "\<exists>g cs. round_robin processes Q = Some (report g cs)
           \<and> valid_timeline g processes cs \<and> (\<forall>p\<in>set cs. ran_ok p)
           \<and> length cs = length processes \<and> fst (snd (hd g)) = 0"
proof -
  let ?xs = "sort_key arrival_time processes"
  from rr_final [OF v Q] obtain t where t: "rr_loop Q (rr_init ?xs) = Some (Inr t)"
    and inv: "rr_inv t" and pl: "process_list t = ?xs"
    and n: "length (completed_processes_dict t) = length processes"
    and e: "ready_queue t = []" and i: "\<not> process_idx t < length (process_list t)"
    by blast
  let ?g = "gantt_chart t" and ?d = "completed_processes_dict t"
  let ?cs = "sort_key p_id (map snd ?d)"
  from inv have d: "rr_dict_ok t" and c: "rr_chart_ok t"
    and w: "busy ?g + rr_left t = (\<Sum>p\<leftarrow>process_list t. burst_time p)"
    and tw: "total_waiting_time t = (\<Sum>e\<leftarrow>?d. waiting_time (snd e))"
    and tt: "total_turnaround_time t = (\<Sum>e\<leftarrow>?d. turnaround_time (snd e))"
    and l: "ready_queue t = [] \<and> \<not> process_idx t < length (process_list t)
          \<longrightarrow> ?d = [] \<or> (\<exists>e\<in>set ?d. completion_time (snd e) = current_time t)"
    by (simp_all add: rr_inv_def)
  have ne: "processes \<noteq> []" using v by (simp add: valid_input_def)
  then have dne: "map snd ?d \<noteq> []" using n by auto
  have "finish ?g (total_waiting_time t) (total_turnaround_time t) (length ?xs) (map snd ?d)
        = report ?g ?cs"
    using dne by (rule finish_report) (simp_all add: n tw tt comp_def)
  then have 1: "round_robin processes Q = Some (report ?g ?cs)"
    using Q t by (simp add: round_robin_def Let_def)
  have "rr_left t = 0" using e i by (simp add: rr_left_def)
  moreover have "(\<Sum>p\<leftarrow>?xs. burst_time p) = (\<Sum>p\<leftarrow>processes. burst_time p)"
    by (rule sum_list_sort_key)
  ultimately have b: "busy ?g = (\<Sum>p\<leftarrow>processes. burst_time p)" using w pl by simp
  have "0 < (\<Sum>p\<leftarrow>processes. burst_time p)"
    using ne v by (intro sum_list_pos_int) (simp_all add: valid_input_def)
  then have g: "?g \<noteq> []" using b by auto
  have cont: "contiguous 0 ?g" and ce: "chart_end 0 ?g = current_time t"
    and adj: "distinct_adj (map fst ?g)"
    using c by (simp_all add: rr_chart_ok_def)
  have hd0: "fst (snd (hd ?g)) = 0" using cont g by (rule contiguous_hd)
  have le: "snd (snd (last ?g)) = current_time t" using ce g by (simp add: chart_end_def)
  have all: "finished_ok (current_time t) p" if "p \<in> set ?cs" for p
    using that d by (auto simp: rr_dict_ok_def)
  from l e i dne obtain x where x: "x \<in> set ?d" "completion_time (snd x) = current_time t"
    by auto
  have "Max (set (map completion_time ?cs)) = current_time t"
  proof (rule Max_eqI)
    show "finite (set (map completion_time ?cs))" by simp
    show "y \<le> current_time t" if "y \<in> set (map completion_time ?cs)" for y
    proof -
      from that obtain p where "p \<in> set ?cs" "y = completion_time p" by auto
      then show ?thesis using all [of p] by (simp add: finished_ok_def)
    qed
    have "snd x \<in> set ?cs" using x(1) by simp
    then show "current_time t \<in> set (map completion_time ?cs)"
      using x(2) by (metis image_eqI set_map)
  qed
  then have 2: "valid_timeline ?g processes ?cs"
    using g cont hd0 le adj b by (simp add: valid_timeline_def)
  have 3: "\<forall>p\<in>set ?cs. ran_ok p"
  proof
    fix p assume "p \<in> set ?cs"
    then have "finished_ok (current_time t) p" by (rule all)
    then show "ran_ok p" by (simp add: finished_ok_def ran_ok_def)
  qed
  have 4: "length ?cs = length processes" using n by simp
  show ?thesis using 1 2 3 4 hd0 by blast
qed

section \<open>The metrics of the completed processes\<close>



section \<open>The timeline\<close>



section \<open>Start and completion\<close>



section \<open>The process that is selected by \<open>sjf\<close> and \<open>priority_scheduling\<close>\<close>

lemma hd_sorted_le:
  assumes "sorted (map f xs)" and "x \<in> set xs"
  shows "f (hd xs) \<le> (f x :: int)"
  using assms by (cases xs) auto

lemma hd_filter_hd:
  assumes "xs \<noteq> []"
  shows "hd (filter (\<lambda>y. f y = f (hd xs)) xs) = hd xs"
  using assms by (cases xs) simp_all

lemma hd_sort_key:
  fixes key :: "'a \<Rightarrow> int"
  assumes "xs \<noteq> []"
  shows "hd (sort_key key xs) \<in> set xs"
    and "\<forall>x\<in>set xs. key (hd (sort_key key xs)) \<le> key x"
    and "hd (sort_key key xs) = hd (filter (\<lambda>y. key y = key (hd (sort_key key xs))) xs)"
proof -
  let ?s = "sort_key key xs"
  have ne: "?s \<noteq> []" using assms by (metis set_sort set_empty)
  then have "hd ?s \<in> set ?s" by (rule hd_in_set)
  then show "hd ?s \<in> set xs" by simp
  have "sorted (map key ?s)" by (rule sorted_sort_key)
  then have "key (hd ?s) \<le> key x" if "x \<in> set ?s" for x using that by (rule hd_sorted_le)
  then show "\<forall>x\<in>set xs. key (hd ?s) \<le> key x" by simp
  have "hd (filter (\<lambda>y. key y = key (hd ?s)) ?s) = hd ?s" using ne by (rule hd_filter_hd)
  then show "hd ?s = hd (filter (\<lambda>y. key y = key (hd ?s)) xs)"
    by (simp only: sort_key_stable)
qed

text \<open>
  The process that \<open>sjf\<close> and \<open>priority_scheduling\<close> select: \<open>r\<close> is the list of the
  remaining processes, in the order of the input sorted by arrival time, and \<open>t\<close> the clock.
\<close>

lemma select_first:
  fixes key :: "Process \<Rightarrow> int"
  assumes r: "r = filter (\<lambda>q. q \<in> set r) (sort_key arrival_time ps)"
    and ne: "filter (\<lambda>p. arrival_time p \<le> t) r \<noteq> []"
  defines "R \<equiv> filter (\<lambda>p. arrival_time p \<le> t) r"
  defines "proc \<equiv> hd (sort_key key (filter (\<lambda>p. arrival_time p \<le> t) r))"
  shows "proc \<in> set R"
    and "\<forall>q\<in>set R. key proc \<le> key q"
    and "\<forall>q\<in>set R. key q = key proc \<longrightarrow> arrival_time proc \<le> arrival_time q"
    and "proc = hd (filter (\<lambda>q. q \<in> set R \<and> key q = key proc
                                \<and> arrival_time q = arrival_time proc) ps)"
proof -
  let ?xs = "sort_key arrival_time ps"
  let ?T = "filter (\<lambda>y. key y = key proc) R"
  have Rne: "R \<noteq> []" using ne by (simp add: R_def)
  have p: "proc = hd (sort_key key R)" by (simp add: proc_def R_def)
  show pin: "proc \<in> set R" unfolding p using Rne by (rule hd_sort_key(1))
  show "\<forall>q\<in>set R. key proc \<le> key q" unfolding p using Rne by (rule hd_sort_key(2))
  have pT: "proc = hd ?T" using hd_sort_key(3) [OF Rne, of key] by (simp only: p [symmetric])
  have Tne: "?T \<noteq> []" using pin by (auto simp: filter_empty_conv)
  have T: "?T = filter (\<lambda>q. key q = key proc \<and> arrival_time q \<le> t \<and> q \<in> set r) ?xs"
    unfolding R_def by (subst r) (simp del: filter_sort add: conj_commute)
  have "sorted (map arrival_time ?xs)" by (rule sorted_sort_key)
  then have "sorted (map arrival_time ?T)" unfolding T by (rule sorted_filter)
  then have "arrival_time (hd ?T) \<le> arrival_time q" if "q \<in> set ?T" for q
    using that by (rule hd_sorted_le)
  then show "\<forall>q\<in>set R. key q = key proc \<longrightarrow> arrival_time proc \<le> arrival_time q"
    unfolding pT [symmetric] by simp
  have "hd (filter (\<lambda>y. arrival_time y = arrival_time (hd ?T)) ?T) = hd ?T"
    using Tne by (rule hd_filter_hd)
  then have "proc = hd (filter (\<lambda>y. arrival_time y = arrival_time proc) ?T)"
    unfolding pT [symmetric] by simp
  also have "filter (\<lambda>y. arrival_time y = arrival_time proc) ?T
             = filter (\<lambda>q. key q = key proc \<and> arrival_time q \<le> t \<and> q \<in> set r)
                 (filter (\<lambda>y. arrival_time y = arrival_time proc) ?xs)"
    unfolding T by (simp del: filter_sort add: conj_commute)
  also have "filter (\<lambda>y. arrival_time y = arrival_time proc) ?xs
             = filter (\<lambda>y. arrival_time y = arrival_time proc) ps"
    by (rule sort_key_stable)
  also have "filter (\<lambda>q. key q = key proc \<and> arrival_time q \<le> t \<and> q \<in> set r)
                 (filter (\<lambda>y. arrival_time y = arrival_time proc) ps)
             = filter (\<lambda>q. q \<in> set R \<and> key q = key proc \<and> arrival_time q = arrival_time proc) ps"
    by (auto simp: R_def intro: filter_cong)
  finally show "proc = hd (filter (\<lambda>q. q \<in> set R \<and> key q = key proc
                                \<and> arrival_time q = arrival_time proc) ps)" .
qed

lemma select_first_id:
  assumes p: "proc = hd (filter P ps)" and s: "sorted (map p_id ps)"
    and q: "q \<in> set ps" "P q"
  shows "p_id proc \<le> p_id q"
proof -
  have "sorted (map p_id (filter P ps))" using s by (rule sorted_filter)
  moreover have "q \<in> set (filter P ps)" using q by simp
  ultimately show ?thesis unfolding p by (rule hd_sorted_le)
qed


text \<open>
  The states at the head of the loop of \<open>sjf\<close> and \<open>priority_scheduling\<close>, from the state
  \<open>st0\<close> on: one rule for each branch of \<open>np_loop\<close> that continues.
\<close>

inductive np_reach :: "(Process \<Rightarrow> int) \<Rightarrow> nat \<Rightarrow> np_state \<Rightarrow> np_state \<Rightarrow> bool"
  for key :: "Process \<Rightarrow> int" and n :: nat and st0 :: np_state where
  np_reach_start: "np_reach key n st0 st0"
| np_reach_dispatch:
    "np_reach key n st0 st \<Longrightarrow> length (completed_processes st) < n
     \<Longrightarrow> np_advance st = Inr st1 \<Longrightarrow> ready st1 \<noteq> []
     \<Longrightarrow> np_reach key n st0 (np_dispatch key st1)"
| np_reach_again:
    "np_reach key n st0 st \<Longrightarrow> length (completed_processes st) < n
     \<Longrightarrow> np_advance st = Inr st1 \<Longrightarrow> ready st1 = [] \<Longrightarrow> remaining_processes st1 \<noteq> []
     \<Longrightarrow> np_reach key n st0 st1"

lemma np_reach_loop:
  assumes "np_reach key n st0 st"
  shows "np_loop key n st = np_loop key n st0"
  using assms
proof (induction rule: np_reach.induct)
  case np_reach_start
  show ?case by simp
next
  case (np_reach_dispatch st st1)
  have "np_loop key n st = np_loop key n (np_dispatch key st1)"
    by (subst np_loop.simps) (simp add: np_reach_dispatch.hyps)
  then show ?case using np_reach_dispatch.IH by simp
next
  case (np_reach_again st st1)
  have "np_loop key n st = np_loop key n st1"
    by (subst np_loop.simps) (simp add: np_reach_again.hyps)
  then show ?case using np_reach_again.IH by simp
qed

definition np_sel_inv :: "Process list \<Rightarrow> np_state \<Rightarrow> bool" where
  "np_sel_inv processes st \<longleftrightarrow>
     np_inv processes st
     \<and> remaining_processes st
         = filter (\<lambda>q. q \<in> set (remaining_processes st)) (sort_key arrival_time processes)
     \<and> set (remaining_processes st) \<subseteq> set processes
     \<and> p_id ` set (remaining_processes st) \<union> p_id ` set (completed_processes st)
         = p_id ` set processes
     \<and> length (completed_processes st) + length (remaining_processes st) = length processes"

lemma remove1_sublist:
  assumes r: "r = filter (\<lambda>q. q \<in> set r) xs" and d: "distinct r"
  shows "remove1 p r = filter (\<lambda>q. q \<in> set (remove1 p r)) xs"
proof -
  have "remove1 p r = filter (\<lambda>q. q \<noteq> p) r"
    using d by (simp add: distinct_remove1_removeAll removeAll_filter_not_eq) metis
  also have "\<dots> = filter (\<lambda>q. q \<noteq> p) (filter (\<lambda>q. q \<in> set r) xs)" using r by simp
  also have "\<dots> = filter (\<lambda>q. q \<in> set (remove1 p r)) xs"
    using d by (auto simp: set_remove1_eq intro: filter_cong)
  finally show ?thesis .
qed

lemma np_sel_inv_init:
  assumes "valid_input processes"
  shows "np_sel_inv processes (np_init (sort_key arrival_time processes))"
proof -
  let ?xs = "sort_key arrival_time processes"
  have d: "distinct (map p_id ?xs)"
    using assms by (metis valid_input_def distinct_map distinct_sort set_sort)
  have sm: "sum_list (map burst_time ?xs) = sum_list (map burst_time processes)"
    by (rule sum_list_sort_key)
  have "np_inv processes (np_init ?xs)"
    using assms d sm by (simp add: np_inv_def np_init_def sched_inv_def valid_input_def)
  moreover have "?xs = filter (\<lambda>q. q \<in> set ?xs) ?xs" by (simp del: filter_sort)
  ultimately show ?thesis by (simp add: np_sel_inv_def np_init_def del: filter_sort)
qed

lemma np_sel_inv_step:
  assumes v: "valid_input processes" and inv: "np_sel_inv processes s"
    and ne: "remaining_processes s \<noteq> []"
  shows "np_sel_inv processes ((serve (np_pick key s) (np_time s) s)
           \<lparr>remaining_processes := remove1 (np_pick key s) (remaining_processes s)\<rparr>)"
proof -
  let ?p = "np_pick key s" and ?r = "remaining_processes s" and ?c = "completed_processes s"
  let ?s' = "(serve ?p (np_time s) s)\<lparr>remaining_processes := remove1 ?p ?r\<rparr>"
  from inv have ni: "np_inv processes s"
    and r: "?r = filter (\<lambda>q. q \<in> set ?r) (sort_key arrival_time processes)"
    and sub: "set ?r \<subseteq> set processes"
    and ids: "p_id ` set ?r \<union> p_id ` set ?c = p_id ` set processes"
    and len: "length ?c + length ?r = length processes"
    by (simp_all add: np_sel_inv_def)
  have pin: "?p \<in> set ?r" using ne by (rule np_pick_in)
  have d: "distinct (map p_id ?r)" using ni by (simp add: np_inv_def)
  then have dr: "distinct ?r" by (simp add: distinct_map)
  have 1: "np_inv processes ?s'" using ni ne by (rule np_inv_step)
  have 2: "remove1 ?p ?r = filter (\<lambda>q. q \<in> set (remove1 ?p ?r)) (sort_key arrival_time processes)"
    using r dr by (rule remove1_sublist)
  have sr: "set (remove1 ?p ?r) = set ?r - {?p}" using dr by (rule set_remove1_eq)
  have 3: "set (remove1 ?p ?r) \<subseteq> set processes" using sub sr by auto
  have "p_id ` set ?r = insert (p_id ?p) (p_id ` set (remove1 ?p ?r))"
    using pin sr by auto
  then have 4: "p_id ` set (remove1 ?p ?r) \<union> p_id ` set (completed_processes ?s')
                = p_id ` set processes"
    using ids by auto
  have "length (remove1 ?p ?r) = length ?r - 1" using pin by (simp add: length_remove1)
  moreover have "0 < length ?r" using pin by (rule length_pos_if_in_set)
  moreover have "length (completed_processes ?s') = Suc (length ?c)" by simp
  ultimately have 5: "length (completed_processes ?s') + length (remove1 ?p ?r) = length processes"
    using len by linarith
  show ?thesis unfolding np_sel_inv_def using 1 2 3 4 5 by simp
qed

lemma np_head:
  assumes v: "valid_input processes" and inv: "np_sel_inv processes st"
    and lt: "length (completed_processes st) < length processes"
  shows "remaining_processes st \<noteq> []"
    and "np_advance st = Inr (if ready st = []
                then st\<lparr>gantt_chart := gantt_chart st @ [(Idle, current_time st, np_time st)],
                        current_time := np_time st\<rparr>
                else st)"
    and "start_time (np_pick key st) = - 1"
proof -
  from inv have len: "length (completed_processes st) + length (remaining_processes st)
                      = length processes"
    and sub: "set (remaining_processes st) \<subseteq> set processes"
    by (simp_all add: np_sel_inv_def)
  show ne: "remaining_processes st \<noteq> []" using len lt by auto
  show "np_advance st = Inr (if ready st = []
                then st\<lparr>gantt_chart := gantt_chart st @ [(Idle, current_time st, np_time st)],
                        current_time := np_time st\<rparr>
                else st)"
    using ne by (rule np_advance_eq)
  have "np_pick key st \<in> set processes" using np_pick_in(1) [OF ne] sub by blast
  then have "constructed (np_pick key st)" using v by (simp add: valid_input_def)
  then show "start_time (np_pick key st) = - 1" by (rule constructed_fields)
qed

lemma np_reach_inv:
  assumes v: "valid_input processes"
    and "np_reach key (length processes) (np_init (sort_key arrival_time processes)) st"
  shows "np_sel_inv processes st"
  using assms(2)
proof (induction rule: np_reach.induct)
  case np_reach_start
  show ?case using v by (rule np_sel_inv_init)
next
  case (np_reach_dispatch st st1)
  have ne: "remaining_processes st \<noteq> []"
    and start: "start_time (np_pick key st) = - 1"
    using v np_reach_dispatch.IH np_reach_dispatch.hyps(2) by (rule np_head)+
  have "np_dispatch key st1
        = (serve (np_pick key st) (np_time st) st)
             \<lparr>remaining_processes := remove1 (np_pick key st) (remaining_processes st)\<rparr>"
    using ne np_reach_dispatch.hyps(3) start by (rule np_iteration)
  then show ?case using np_sel_inv_step [OF v np_reach_dispatch.IH ne, of key] by simp
next
  case (np_reach_again st st1)
  have "ready st1 \<noteq> []" using np_reach_again.hyps(3) by (rule np_advance_ready)
  then show ?case using np_reach_again.hyps(4) by simp
qed


text \<open>
  A decision point of \<open>sjf\<close> (key \<open>burst_time\<close>) or \<open>priority_scheduling\<close> (key \<open>priority\<close>)
  on the input \<open>processes\<close>: a state at the head of the loop, reached from the initial
  state, in which the loop condition holds.
\<close>

definition decision_point :: "(Process \<Rightarrow> int) \<Rightarrow> Process list \<Rightarrow> np_state \<Rightarrow> bool" where
  "decision_point key processes st \<longleftrightarrow>
     np_reach key (length processes) (np_init (sort_key arrival_time processes)) st
     \<and> length (completed_processes st) < length processes"

lemma np_dispatch_fields:
  assumes "start_time (hd (sort_key key (ready st))) = - 1"
  defines "proc \<equiv> hd (sort_key key (ready st))"
  shows "gantt_chart (np_dispatch key st)
         = gantt_chart st @ [(Pid (p_id proc), current_time st, current_time st + burst_time proc)]"
    and "current_time (np_dispatch key st) = current_time st + burst_time proc"
    and "completed_processes (np_dispatch key st)
         = completed_processes st
           @ [calculate_metrics (proc\<lparr>start_time := current_time st,
                                       completion_time := current_time st + burst_time proc\<rparr>)]"
    and "remaining_processes (np_dispatch key st) = remove1 proc (remaining_processes st)"
  using assms(1) unfolding proc_def np_dispatch_def Let_def by simp_all

lemma np_selection:
  assumes v: "valid_input processes" and dp: "decision_point key processes st"
    and adv: "np_advance st = Inr st1"
  defines "proc \<equiv> hd (sort_key key (ready st1))"
  shows "set (ready st1) = {q \<in> set processes. p_id q \<notin> p_id ` set (completed_processes st)
                              \<and> arrival_time q \<le> current_time st1}"
    and "proc \<in> set (ready st1)"
    and "\<forall>q\<in>set (ready st1). key proc \<le> key q"
    and "\<forall>q\<in>set (ready st1). key q = key proc \<longrightarrow> arrival_time proc \<le> arrival_time q"
    and "proc = hd (filter (\<lambda>q. q \<in> set (ready st1) \<and> key q = key proc
                                 \<and> arrival_time q = arrival_time proc) processes)"
    and "sorted (map p_id processes) \<longrightarrow>
           (\<forall>q\<in>set (ready st1). key q = key proc \<and> arrival_time q = arrival_time proc
                \<longrightarrow> p_id proc \<le> p_id q)"
    and "start_time proc = - 1"
proof -
  let ?r = "remaining_processes st" and ?c = "completed_processes st"
  from dp have reach: "np_reach key (length processes) (np_init (sort_key arrival_time processes)) st"
    and lt: "length ?c < length processes"
    by (simp_all add: decision_point_def)
  have inv: "np_sel_inv processes st" using v reach by (rule np_reach_inv)
  then have ni: "np_inv processes st"
    and r: "?r = filter (\<lambda>q. q \<in> set ?r) (sort_key arrival_time processes)"
    and sub: "set ?r \<subseteq> set processes"
    and ids: "p_id ` set ?r \<union> p_id ` set ?c = p_id ` set processes"
    by (simp_all add: np_sel_inv_def)
  have ne: "?r \<noteq> []" using v inv lt by (rule np_head)
  have r1: "remaining_processes st1 = ?r"
    using adv unfolding np_advance_eq [OF ne] by auto
  have rdy: "ready st1 = filter (\<lambda>p. arrival_time p \<le> current_time st1) ?r"
    by (simp add: ready_def r1)
  have rne: "filter (\<lambda>p. arrival_time p \<le> current_time st1) ?r \<noteq> []"
    using np_advance_ready [OF adv] by (simp add: rdy)
  have p: "proc = hd (sort_key key (filter (\<lambda>p. arrival_time p \<le> current_time st1) ?r))"
    by (simp add: proc_def rdy del: filter_sort)
  have dj: "p_id ` set ?r \<inter> p_id ` set ?c = {}" using ni by (simp add: np_inv_def)
  have dist: "distinct (map p_id processes)" using v by (simp add: valid_input_def)
  have "set ?r = {q \<in> set processes. p_id q \<notin> p_id ` set ?c}"
  proof (intro set_eqI iffI)
    fix q assume "q \<in> set ?r"
    then show "q \<in> {q \<in> set processes. p_id q \<notin> p_id ` set ?c}" using sub dj by auto
  next
    fix q assume "q \<in> {q \<in> set processes. p_id q \<notin> p_id ` set ?c}"
    then have q: "q \<in> set processes" "p_id q \<notin> p_id ` set ?c" by simp_all
    then have "p_id q \<in> p_id ` set ?r" using ids by blast
    then obtain x where x: "x \<in> set ?r" "p_id x = p_id q" by force
    have "inj_on p_id (set processes)" using dist by (simp add: distinct_map)
    then have "x = q" using x sub q(1) by (auto dest: inj_onD)
    with x(1) show "q \<in> set ?r" by simp
  qed
  then show "set (ready st1) = {q \<in> set processes. p_id q \<notin> p_id ` set ?c
                              \<and> arrival_time q \<le> current_time st1}"
    unfolding rdy by auto
  show pin: "proc \<in> set (ready st1)"
    unfolding p rdy using r rne by (rule select_first(1))
  show "\<forall>q\<in>set (ready st1). key proc \<le> key q"
    unfolding p rdy using r rne by (rule select_first(2))
  show "\<forall>q\<in>set (ready st1). key q = key proc \<longrightarrow> arrival_time proc \<le> arrival_time q"
    unfolding p rdy using r rne by (rule select_first(3))
  show e: "proc = hd (filter (\<lambda>q. q \<in> set (ready st1) \<and> key q = key proc
                                 \<and> arrival_time q = arrival_time proc) processes)"
    unfolding p rdy using r rne by (rule select_first(4))
  have rsub: "set (ready st1) \<subseteq> set processes" using sub by (auto simp: rdy)
  show "sorted (map p_id processes) \<longrightarrow>
           (\<forall>q\<in>set (ready st1). key q = key proc \<and> arrival_time q = arrival_time proc
                \<longrightarrow> p_id proc \<le> p_id q)"
  proof (intro impI ballI)
    fix q assume s: "sorted (map p_id processes)" and q: "q \<in> set (ready st1)"
      and k: "key q = key proc \<and> arrival_time q = arrival_time proc"
    have "q \<in> set processes" using q rsub by blast
    moreover have "q \<in> set (ready st1) \<and> key q = key proc \<and> arrival_time q = arrival_time proc"
      using q k by simp
    ultimately show "p_id proc \<le> p_id q" using e s by (intro select_first_id [OF e s])
  qed
  have "proc \<in> set processes" using pin rsub by blast
  then have "constructed proc" using v by (simp add: valid_input_def)
  then show "start_time proc = - 1" by (rule constructed_fields)
qed


text \<open>
  C4, as stated, fails: both processes arrive at 3 with the same burst time, and \<open>sjf\<close> runs
  the process with id 2 first, the one that comes first in the list it was given.
\<close>

theorem C4_sjf_tie_not_broken_by_id:
  "valid_input [Process_init 2 3 2 0, Process_init 1 3 2 0]
   \<and> sjf [Process_init 2 3 2 0, Process_init 1 3 2 0]
       = Inr ([(Idle, 0, 3), (Pid 2, 3, 5), (Pid 1, 5, 7)], 1, 3,
              [\<lparr>p_id = 1, arrival_time = 3, burst_time = 2, priority = 0, remaining_burst_time = 2,
                 start_time = 5, completion_time = 7, waiting_time = 2, turnaround_time = 4\<rparr>,
               \<lparr>p_id = 2, arrival_time = 3, burst_time = 2, priority = 0, remaining_burst_time = 2,
                 start_time = 3, completion_time = 5, waiting_time = 0, turnaround_time = 2\<rparr>])"
  by (simp add: valid_input_def constructed_def sjf_def nonpreemptive_def np_loop.simps
      np_init_def np_advance_def np_dispatch_def ready_def Process_init_def calculate_metrics_def
      finish_def true_div_exact Let_def)

text \<open>
  C4, amended: at every decision point of \<open>sjf\<close> on a valid input, after the clock was
  moved to the next arrival when nothing was ready (\<open>np_advance\<close>), the ready list holds the
  processes of the input that are not completed and have arrived, and the process \<open>proc\<close>
  that is dispatched is one of them with the smallest burst time, among these one with the
  smallest arrival time, and among these the first of the input list: the sorts are stable
  and no id is compared. When the input list is in ascending order of the ids, as the
  callers build it, that is the smallest id. The process runs without preemption: the loop
  goes on from the state in which one chart entry of the length of its burst time is added
  and the process is completed at the end of it.
\<close>

theorem C4_sjf_selects_shortest_earliest_first_listed:
  assumes "valid_input processes" and "decision_point burst_time processes st"
    and "np_advance st = Inr st1"
  defines "proc \<equiv> hd (sort_key burst_time (ready st1))"
  shows "set (ready st1) = {q \<in> set processes. p_id q \<notin> p_id ` set (completed_processes st)
                              \<and> arrival_time q \<le> current_time st1}
       \<and> proc \<in> set (ready st1)
       \<and> (\<forall>q\<in>set (ready st1). burst_time proc \<le> burst_time q)
       \<and> (\<forall>q\<in>set (ready st1). burst_time q = burst_time proc \<longrightarrow> arrival_time proc \<le> arrival_time q)
       \<and> proc = hd (filter (\<lambda>q. q \<in> set (ready st1) \<and> burst_time q = burst_time proc
                                  \<and> arrival_time q = arrival_time proc) processes)
       \<and> (sorted (map p_id processes) \<longrightarrow>
            (\<forall>q\<in>set (ready st1). burst_time q = burst_time proc \<and> arrival_time q = arrival_time proc
                 \<longrightarrow> p_id proc \<le> p_id q))
       \<and> np_loop burst_time (length processes) st
           = np_loop burst_time (length processes) (np_dispatch burst_time st1)
       \<and> gantt_chart (np_dispatch burst_time st1)
           = gantt_chart st1
             @ [(Pid (p_id proc), current_time st1, current_time st1 + burst_time proc)]
       \<and> current_time (np_dispatch burst_time st1) = current_time st1 + burst_time proc
       \<and> completed_processes (np_dispatch burst_time st1)
           = completed_processes st1
             @ [calculate_metrics (proc\<lparr>start_time := current_time st1,
                                         completion_time := current_time st1 + burst_time proc\<rparr>)]
       \<and> remaining_processes (np_dispatch burst_time st1) = remove1 proc (remaining_processes st1)"
proof -
  note sel = np_selection [OF assms(1,2,3), folded proc_def]
  have lt: "length (completed_processes st) < length processes"
    using assms(2) by (simp add: decision_point_def)
  have "ready st1 \<noteq> []" using assms(3) by (rule np_advance_ready)
  then have loop: "np_loop burst_time (length processes) st
                   = np_loop burst_time (length processes) (np_dispatch burst_time st1)"
    by (subst np_loop.simps) (simp add: lt assms(3))
  have "start_time (hd (sort_key burst_time (ready st1))) = - 1"
    using sel(7) by (simp only: proc_def)
  note d = np_dispatch_fields [OF this, folded proc_def]
  show ?thesis using sel(1-6) loop d by blast
qed

theorem C4_sjf_selects_shortest_earliest_first_listed_witness:
  "valid_input [Process_init 1 2 4 0, Process_init 2 2 3 0]
   \<and> decision_point burst_time [Process_init 1 2 4 0, Process_init 2 2 3 0]
       (np_init (sort_key arrival_time [Process_init 1 2 4 0, Process_init 2 2 3 0]))
   \<and> np_advance (np_init (sort_key arrival_time [Process_init 1 2 4 0, Process_init 2 2 3 0]))
       = Inr ((np_init (sort_key arrival_time [Process_init 1 2 4 0, Process_init 2 2 3 0]))\<lparr>gantt_chart := [(Idle, 0, 2)], current_time := 2\<rparr>)
   \<and> hd (sort_key burst_time (ready ((np_init (sort_key arrival_time [Process_init 1 2 4 0, Process_init 2 2 3 0]))\<lparr>gantt_chart := [(Idle, 0, 2)], current_time := 2\<rparr>))) = Process_init 2 2 3 0
   \<and> gantt_chart (np_dispatch burst_time ((np_init (sort_key arrival_time [Process_init 1 2 4 0, Process_init 2 2 3 0]))\<lparr>gantt_chart := [(Idle, 0, 2)], current_time := 2\<rparr>)) = [(Idle, 0, 2), (Pid 2, 2, 5)]"
proof -
  have v: "valid_input [Process_init 1 2 4 0, Process_init 2 2 3 0]"
    by (simp add: valid_input_def constructed_def Process_init_def)
  have dp: "decision_point burst_time [Process_init 1 2 4 0, Process_init 2 2 3 0]
       (np_init (sort_key arrival_time [Process_init 1 2 4 0, Process_init 2 2 3 0]))"
    by (simp add: decision_point_def np_reach_start) (simp add: np_init_def)
  have adv: "np_advance (np_init (sort_key arrival_time [Process_init 1 2 4 0, Process_init 2 2 3 0]))
       = Inr ((np_init (sort_key arrival_time [Process_init 1 2 4 0, Process_init 2 2 3 0]))\<lparr>gantt_chart := [(Idle, 0, 2)], current_time := 2\<rparr>)"
    by (simp add: np_advance_def np_init_def ready_def Process_init_def Let_def)
  have sel: "hd (sort_key burst_time (ready ((np_init (sort_key arrival_time [Process_init 1 2 4 0, Process_init 2 2 3 0]))\<lparr>gantt_chart := [(Idle, 0, 2)], current_time := 2\<rparr>))) = Process_init 2 2 3 0"
    by (simp add: ready_def np_init_def Process_init_def)
  from C4_sjf_selects_shortest_earliest_first_listed [OF v dp adv]
  have "gantt_chart (np_dispatch burst_time ((np_init (sort_key arrival_time [Process_init 1 2 4 0, Process_init 2 2 3 0]))\<lparr>gantt_chart := [(Idle, 0, 2)], current_time := 2\<rparr>))
        = gantt_chart ((np_init (sort_key arrival_time [Process_init 1 2 4 0, Process_init 2 2 3 0]))\<lparr>gantt_chart := [(Idle, 0, 2)], current_time := 2\<rparr>)
          @ [(Pid (p_id (hd (sort_key burst_time (ready ((np_init (sort_key arrival_time [Process_init 1 2 4 0, Process_init 2 2 3 0]))\<lparr>gantt_chart := [(Idle, 0, 2)], current_time := 2\<rparr>))))), current_time ((np_init (sort_key arrival_time [Process_init 1 2 4 0, Process_init 2 2 3 0]))\<lparr>gantt_chart := [(Idle, 0, 2)], current_time := 2\<rparr>),
              current_time ((np_init (sort_key arrival_time [Process_init 1 2 4 0, Process_init 2 2 3 0]))\<lparr>gantt_chart := [(Idle, 0, 2)], current_time := 2\<rparr>) + burst_time (hd (sort_key burst_time (ready ((np_init (sort_key arrival_time [Process_init 1 2 4 0, Process_init 2 2 3 0]))\<lparr>gantt_chart := [(Idle, 0, 2)], current_time := 2\<rparr>)))))]"
    by blast
  then have "gantt_chart (np_dispatch burst_time ((np_init (sort_key arrival_time [Process_init 1 2 4 0, Process_init 2 2 3 0]))\<lparr>gantt_chart := [(Idle, 0, 2)], current_time := 2\<rparr>)) = [(Idle, 0, 2), (Pid 2, 2, 5)]"
    unfolding sel by (simp add: np_init_def Process_init_def)
  with v dp adv sel show ?thesis by blast
qed

text \<open>
  C5, as stated, fails: both processes arrive at 3 with the same priority, and \<open>priority_scheduling\<close> runs
  the process with id 2 first, the one that comes first in the list it was given.
\<close>

theorem C5_priority_tie_not_broken_by_id:
  "valid_input [Process_init 2 3 2 1, Process_init 1 3 4 1]
   \<and> priority_scheduling [Process_init 2 3 2 1, Process_init 1 3 4 1]
       = Inr ([(Idle, 0, 3), (Pid 2, 3, 5), (Pid 1, 5, 9)], 1, 4,
              [\<lparr>p_id = 1, arrival_time = 3, burst_time = 4, priority = 1, remaining_burst_time = 4,
                 start_time = 5, completion_time = 9, waiting_time = 2, turnaround_time = 6\<rparr>,
               \<lparr>p_id = 2, arrival_time = 3, burst_time = 2, priority = 1, remaining_burst_time = 2,
                 start_time = 3, completion_time = 5, waiting_time = 0, turnaround_time = 2\<rparr>])"
  by (simp add: valid_input_def constructed_def priority_scheduling_def nonpreemptive_def np_loop.simps
      np_init_def np_advance_def np_dispatch_def ready_def Process_init_def calculate_metrics_def
      finish_def true_div_exact Let_def)

text \<open>
  C5, amended: at every decision point of \<open>priority_scheduling\<close> on a valid input, after the clock was
  moved to the next arrival when nothing was ready (\<open>np_advance\<close>), the ready list holds the
  processes of the input that are not completed and have arrived, and the process \<open>proc\<close>
  that is dispatched is one of them with the smallest priority, among these one with the
  smallest arrival time, and among these the first of the input list: the sorts are stable
  and no id is compared. When the input list is in ascending order of the ids, as the
  callers build it, that is the smallest id. The process runs without preemption: the loop
  goes on from the state in which one chart entry of the length of its burst time is added
  and the process is completed at the end of it.
\<close>

theorem C5_priority_selects_most_urgent_earliest_first_listed:
  assumes "valid_input processes" and "decision_point priority processes st"
    and "np_advance st = Inr st1"
  defines "proc \<equiv> hd (sort_key priority (ready st1))"
  shows "set (ready st1) = {q \<in> set processes. p_id q \<notin> p_id ` set (completed_processes st)
                              \<and> arrival_time q \<le> current_time st1}
       \<and> proc \<in> set (ready st1)
       \<and> (\<forall>q\<in>set (ready st1). priority proc \<le> priority q)
       \<and> (\<forall>q\<in>set (ready st1). priority q = priority proc \<longrightarrow> arrival_time proc \<le> arrival_time q)
       \<and> proc = hd (filter (\<lambda>q. q \<in> set (ready st1) \<and> priority q = priority proc
                                  \<and> arrival_time q = arrival_time proc) processes)
       \<and> (sorted (map p_id processes) \<longrightarrow>
            (\<forall>q\<in>set (ready st1). priority q = priority proc \<and> arrival_time q = arrival_time proc
                 \<longrightarrow> p_id proc \<le> p_id q))
       \<and> np_loop priority (length processes) st
           = np_loop priority (length processes) (np_dispatch priority st1)
       \<and> gantt_chart (np_dispatch priority st1)
           = gantt_chart st1
             @ [(Pid (p_id proc), current_time st1, current_time st1 + burst_time proc)]
       \<and> current_time (np_dispatch priority st1) = current_time st1 + burst_time proc
       \<and> completed_processes (np_dispatch priority st1)
           = completed_processes st1
             @ [calculate_metrics (proc\<lparr>start_time := current_time st1,
                                         completion_time := current_time st1 + burst_time proc\<rparr>)]
       \<and> remaining_processes (np_dispatch priority st1) = remove1 proc (remaining_processes st1)"
proof -
  note sel = np_selection [OF assms(1,2,3), folded proc_def]
  have lt: "length (completed_processes st) < length processes"
    using assms(2) by (simp add: decision_point_def)
  have "ready st1 \<noteq> []" using assms(3) by (rule np_advance_ready)
  then have loop: "np_loop priority (length processes) st
                   = np_loop priority (length processes) (np_dispatch priority st1)"
    by (subst np_loop.simps) (simp add: lt assms(3))
  have "start_time (hd (sort_key priority (ready st1))) = - 1"
    using sel(7) by (simp only: proc_def)
  note d = np_dispatch_fields [OF this, folded proc_def]
  show ?thesis using sel(1-6) loop d by blast
qed

theorem C5_priority_selects_most_urgent_earliest_first_listed_witness:
  "valid_input [Process_init 1 2 4 3, Process_init 2 2 3 1]
   \<and> decision_point priority [Process_init 1 2 4 3, Process_init 2 2 3 1]
       (np_init (sort_key arrival_time [Process_init 1 2 4 3, Process_init 2 2 3 1]))
   \<and> np_advance (np_init (sort_key arrival_time [Process_init 1 2 4 3, Process_init 2 2 3 1]))
       = Inr ((np_init (sort_key arrival_time [Process_init 1 2 4 3, Process_init 2 2 3 1]))\<lparr>gantt_chart := [(Idle, 0, 2)], current_time := 2\<rparr>)
   \<and> hd (sort_key priority (ready ((np_init (sort_key arrival_time [Process_init 1 2 4 3, Process_init 2 2 3 1]))\<lparr>gantt_chart := [(Idle, 0, 2)], current_time := 2\<rparr>))) = Process_init 2 2 3 1
   \<and> gantt_chart (np_dispatch priority ((np_init (sort_key arrival_time [Process_init 1 2 4 3, Process_init 2 2 3 1]))\<lparr>gantt_chart := [(Idle, 0, 2)], current_time := 2\<rparr>)) = [(Idle, 0, 2), (Pid 2, 2, 5)]"
proof -
  have v: "valid_input [Process_init 1 2 4 3, Process_init 2 2 3 1]"
    by (simp add: valid_input_def constructed_def Process_init_def)
  have dp: "decision_point priority [Process_init 1 2 4 3, Process_init 2 2 3 1]
       (np_init (sort_key arrival_time [Process_init 1 2 4 3, Process_init 2 2 3 1]))"
    by (simp add: decision_point_def np_reach_start) (simp add: np_init_def)
  have adv: "np_advance (np_init (sort_key arrival_time [Process_init 1 2 4 3, Process_init 2 2 3 1]))
       = Inr ((np_init (sort_key arrival_time [Process_init 1 2 4 3, Process_init 2 2 3 1]))\<lparr>gantt_chart := [(Idle, 0, 2)], current_time := 2\<rparr>)"
    by (simp add: np_advance_def np_init_def ready_def Process_init_def Let_def)
  have sel: "hd (sort_key priority (ready ((np_init (sort_key arrival_time [Process_init 1 2 4 3, Process_init 2 2 3 1]))\<lparr>gantt_chart := [(Idle, 0, 2)], current_time := 2\<rparr>))) = Process_init 2 2 3 1"
    by (simp add: ready_def np_init_def Process_init_def)
  from C5_priority_selects_most_urgent_earliest_first_listed [OF v dp adv]
  have "gantt_chart (np_dispatch priority ((np_init (sort_key arrival_time [Process_init 1 2 4 3, Process_init 2 2 3 1]))\<lparr>gantt_chart := [(Idle, 0, 2)], current_time := 2\<rparr>))
        = gantt_chart ((np_init (sort_key arrival_time [Process_init 1 2 4 3, Process_init 2 2 3 1]))\<lparr>gantt_chart := [(Idle, 0, 2)], current_time := 2\<rparr>)
          @ [(Pid (p_id (hd (sort_key priority (ready ((np_init (sort_key arrival_time [Process_init 1 2 4 3, Process_init 2 2 3 1]))\<lparr>gantt_chart := [(Idle, 0, 2)], current_time := 2\<rparr>))))), current_time ((np_init (sort_key arrival_time [Process_init 1 2 4 3, Process_init 2 2 3 1]))\<lparr>gantt_chart := [(Idle, 0, 2)], current_time := 2\<rparr>),
              current_time ((np_init (sort_key arrival_time [Process_init 1 2 4 3, Process_init 2 2 3 1]))\<lparr>gantt_chart := [(Idle, 0, 2)], current_time := 2\<rparr>) + burst_time (hd (sort_key priority (ready ((np_init (sort_key arrival_time [Process_init 1 2 4 3, Process_init 2 2 3 1]))\<lparr>gantt_chart := [(Idle, 0, 2)], current_time := 2\<rparr>)))))]"
    by blast
  then have "gantt_chart (np_dispatch priority ((np_init (sort_key arrival_time [Process_init 1 2 4 3, Process_init 2 2 3 1]))\<lparr>gantt_chart := [(Idle, 0, 2)], current_time := 2\<rparr>)) = [(Idle, 0, 2), (Pid 2, 2, 5)]"
    unfolding sel by (simp add: np_init_def Process_init_def)
  with v dp adv sel show ?thesis by blast
qed

section \<open>The empty process list\<close>

text \<open>
  Each algorithm ends with the guard \<open>if not completed_processes: return [], 0.0, 0.0, []\<close>
  (lines 57, 137, 216 and 327 of scheduler.py). With no process the loops do not run and this
  guard returns the empty result.
\<close>

text \<open>
  C8, as stated, fails: \<open>fcfs\<close> called with the empty list does not fail, it returns.
\<close>

theorem C8_fcfs_empty_returns: "\<not> isl (fcfs [])"
  by (simp add: fcfs_def fcfs_init_def finish_def)

text \<open>
  C8, amended: for every algorithm the empty process list is not an error. The call
  returns the empty result (empty chart, both averages 0, no completed process); only
  \<open>round_robin\<close> with a quantum that is not positive raises, and it raises \<open>ValueError\<close>
  for the quantum.
\<close>

theorem C8_empty_input_returns_empty_result:
  "fcfs [] = Inr ([], 0, 0, [])
   \<and> sjf [] = Inr ([], 0, 0, [])
   \<and> priority_scheduling [] = Inr ([], 0, 0, [])
   \<and> round_robin [] q = (if q \<le> 0 then Some (Inl ValueError) else Some (Inr ([], 0, 0, [])))"
proof -
  have f: "fcfs [] = Inr ([], 0, 0, [])"
    by (simp add: fcfs_def fcfs_init_def finish_def)
  have n: "nonpreemptive key [] = Inr ([], 0, 0, [])" for key
    by (simp add: nonpreemptive_def np_loop.simps np_init_def finish_def)
  have r: "rr_loop q (rr_init []) = Some (Inr (rr_init []))"
    by (subst rr_loop.simps) (simp add: rr_init_def)
  have "round_robin [] q = (if q \<le> 0 then Some (Inl ValueError) else Some (Inr ([], 0, 0, [])))"
    by (simp add: round_robin_def r finish_def) (simp add: rr_init_def)
  with f n show ?thesis by (simp add: sjf_def priority_scheduling_def)
qed

section \<open>The quantum check of round robin\<close>


end
